theory Spec2Isabelle
  imports Main
begin

section \<open>Python values, errors and the world\<close>

text \<open>
  A Python \<open>str\<close> is a sequence of code points; a code point is a natural number below
  \<open>0x110000\<close>, and the surrogate range \<open>0xD800..0xDFFF\<close> is allowed in a \<open>str\<close>.
  ASCII text is written through \<open>asc\<close>.
\<close>

type_synonym pystr = "nat list"

definition asc :: "string \<Rightarrow> pystr" where
  "asc = map of_char"

text \<open>
  The objects \<open>save\<close> may be handed and \<open>fetch\<close> may return. Python ints are unbounded.
  A float is kept as a numeric literal that denotes it (float arithmetic and the digits
  \<open>float.__repr__\<close> chooses are not modelled). \<open>PObject\<close> stands for every object the
  JSON encoder has no rule for (a set, bytes, an instance of a user class).
\<close>

datatype pyval =
    PNone
  | PBool bool
  | PInt int
  | PFloat pystr
  | PStr pystr
  | PList "pyval list"
  | PTuple "pyval list"
  | PDict "(pyval \<times> pyval) list"
  | PObject nat

datatype decode_msg =
    ExpectingValue
  | ExtraData
  | UnterminatedString
  | InvalidControlCharacter
  | InvalidEscape
  | InvalidUXXXXEscape
  | ExpectingPropertyName
  | ExpectingColon
  | ExpectingComma
  | UnexpectedBOM

text \<open>The exceptions of the model; each of them is a subclass of \<open>Exception\<close>.\<close>

datatype error =
    FileNotFoundError
  | PermissionError
  | NoSpaceError
  | UnicodeDecodeError
  | TypeError
  | ValueError
  | JSONDecodeError decode_msg

text \<open>
  A file holds text (the model is at the level of decoded text; what the encoder writes is
  ASCII, which every usual platform encoding writes and reads back as it is), or bytes that
  the encoding of the platform cannot decode.

  The world is the file table with, for each path, whether it may be opened for reading
  and for writing, whether the disk is full, the handles that are open, what has been
  printed, and the interpreter's limit on the number of decimal digits of an int that is
  converted to or from text (\<open>sys.get_int_max_str_digits()\<close>: 4300 unless it was set
  otherwise, and 0 for no limit, which is also how an interpreter without the limit behaves;
  the interpreter accepts no setting between 1 and 639). Writes are not
  buffered: a chunk is in the file once \<open>write\<close> has returned. The recursion limit of the
  interpreter (which a document nested about a thousand levels deep would hit) is left out.
\<close>

datatype fdata = Text pystr | Undecodable

record world =
  files :: "string \<rightharpoonup> fdata"
  read_denied :: "string set"
  write_denied :: "string set"
  disk_full :: bool
  handles :: "string list"
  stdout :: "error list"
  int_max_str_digits :: nat

datatype mode = Read | Write

text \<open>
  \<open>open(path, mode)\<close>. Mode \<open>'w'\<close> creates the file or truncates it; mode \<open>'r'\<close> needs
  the file to exist. On success the handle is recorded as open.
\<close>

definition open_file :: "string \<Rightarrow> mode \<Rightarrow> world \<Rightarrow> error + world" where
  "open_file path m w =
     (case m of
        Write \<Rightarrow>
          if path \<in> write_denied w then Inl PermissionError
          else Inr (w\<lparr>files := (files w)(path \<mapsto> Text []), handles := path # handles w\<rparr>)
      | Read \<Rightarrow>
          (case files w path of
             None \<Rightarrow> Inl FileNotFoundError
           | Some _ \<Rightarrow>
               if path \<in> read_denied w then Inl PermissionError
               else Inr (w\<lparr>handles := path # handles w\<rparr>)))"

definition close_file :: "string \<Rightarrow> world \<Rightarrow> world" where
  "close_file f w = w\<lparr>handles := remove1 f (handles w)\<rparr>"

text \<open>\<open>f.write(chunk)\<close>: appends to the file; fails when the disk is full.\<close>

definition write_file :: "string \<Rightarrow> pystr \<Rightarrow> world \<Rightarrow> error + world" where
  "write_file f chunk w =
     (if disk_full w \<and> chunk \<noteq> [] then Inl NoSpaceError
      else Inr (w\<lparr>files := (files w)(f \<mapsto>
              Text ((case files w f of Some (Text t) \<Rightarrow> t | _ \<Rightarrow> []) @ chunk))\<rparr>))"

text \<open>\<open>f.read()\<close>: the whole text of the file.\<close>

definition read_file :: "string \<Rightarrow> world \<Rightarrow> error + pystr" where
  "read_file f w =
     (case files w f of
        Some (Text t) \<Rightarrow> Inr t
      | Some Undecodable \<Rightarrow> Inl UnicodeDecodeError
      | None \<Rightarrow> Inl FileNotFoundError)"

text \<open>
  \<open>with open(path, mode) as f: body\<close>. When \<open>open\<close> raises, nothing was acquired; otherwise
  the body runs and the handle is closed on the way out, whether the body returned or raised.
\<close>

definition with_open ::
  "string \<Rightarrow> mode \<Rightarrow> (string \<Rightarrow> world \<Rightarrow> (error + 'a) \<times> world) \<Rightarrow> world \<Rightarrow> (error + 'a) \<times> world" where
  "with_open path m body w =
     (case open_file path m w of
        Inl e \<Rightarrow> (Inl e, w)
      | Inr w1 \<Rightarrow> (let (r, w2) = body path w1 in (r, close_file path w2)))"

text \<open>\<open>print(ee)\<close>: the diagnostic goes to standard output.\<close>

definition print :: "error \<Rightarrow> world \<Rightarrow> world" where
  "print ee w = w\<lparr>stdout := stdout w @ [ee]\<rparr>"

section \<open>\<open>json.dump\<close>\<close>

text \<open>
  The encoder with its default settings: \<open>ensure_ascii=True\<close>, separators \<open>', '\<close> and
  \<open>': '\<close>, \<open>skipkeys=False\<close>, \<open>sort_keys=False\<close>, no indent.
\<close>

definition hexdigit :: "nat \<Rightarrow> nat" where
  "hexdigit d = (if d < 10 then 0x30 + d else 0x61 + (d - 10))"

text \<open>\<open>'\\u{0:04x}'.format(n)\<close> for \<open>n < 0x10000\<close>.\<close>

definition u_escape :: "nat \<Rightarrow> pystr" where
  "u_escape n =
     [0x5C, 0x75, hexdigit (n div 4096 mod 16), hexdigit (n div 256 mod 16),
      hexdigit (n div 16 mod 16), hexdigit (n mod 16)]"

text \<open>
  The replacement of one character in \<open>py_encode_basestring_ascii\<close>: the short escapes,
  printable ASCII as it is, \<open>\\uXXXX\<close> below \<open>0x10000\<close>, a surrogate pair above.
\<close>

definition escape_char :: "nat \<Rightarrow> pystr" where
  "escape_char c =
     (if c = 0x5C then [0x5C, 0x5C]
      else if c = 0x22 then [0x5C, 0x22]
      else if c = 0x08 then [0x5C, 0x62]
      else if c = 0x0C then [0x5C, 0x66]
      else if c = 0x0A then [0x5C, 0x6E]
      else if c = 0x0D then [0x5C, 0x72]
      else if c = 0x09 then [0x5C, 0x74]
      else if 0x20 \<le> c \<and> c \<le> 0x7E then [c]
      else if c < 0x10000 then u_escape c
      else (let n = c - 0x10000
            in u_escape (0xD800 + n div 1024 mod 1024) @ u_escape (0xDC00 + n mod 1024)))"

definition encode_basestring_ascii :: "pystr \<Rightarrow> pystr" where
  "encode_basestring_ascii s = 0x22 # concat (map escape_char s) @ [0x22]"

text \<open>Decimal digits, most significant first.\<close>

function digits :: "nat \<Rightarrow> pystr" where
  "digits n = (if n < 10 then [0x30 + n] else digits (n div 10) @ [0x30 + n mod 10])"
  by pat_completeness auto
termination
  by (relation "measure id") auto

declare digits.simps [simp del]

text \<open>The text of an int: a sign and the digits.\<close>

definition int_repr :: "int \<Rightarrow> pystr" where
  "int_repr i = (if i < 0 then 0x2D # digits (nat (- i)) else digits (nat i))"

text \<open>
  \<open>int.__repr__\<close> under the limit \<open>lim\<close> of the interpreter: \<open>ValueError\<close> when the int has more
  decimal digits than a limit that is not 0.
\<close>

definition intstr :: "nat \<Rightarrow> int \<Rightarrow> error + pystr" where
  "intstr lim i =
     (if 0 < lim \<and> lim < length (digits (nat \<bar>i\<bar>)) then Inl ValueError else Inr (int_repr i))"

text \<open>
  A generator is the list of chunks it yields and the exception that ends it, if any.
\<close>

type_synonym chunks = "pystr list \<times> error option"

definition yield :: "pystr \<Rightarrow> chunks" where
  "yield c = ([c], None)"

definition raise :: "error \<Rightarrow> chunks" where
  "raise e = ([], Some e)"

definition nothing :: chunks where
  "nothing = ([], None)"

definition andthen :: "chunks \<Rightarrow> chunks \<Rightarrow> chunks" where
  "andthen a b = (case snd a of None \<Rightarrow> (fst a @ fst b, snd b) | Some e \<Rightarrow> a)"

text \<open>The conversion of a dict key in \<open>_iterencode_dict\<close>.\<close>

fun dict_key :: "nat \<Rightarrow> pyval \<Rightarrow> error + pystr" where
  "dict_key lim (PStr s) = Inr s"
| "dict_key lim (PFloat t) = Inr t"
| "dict_key lim (PBool True) = Inr (asc ''true'')"
| "dict_key lim (PBool False) = Inr (asc ''false'')"
| "dict_key lim PNone = Inr (asc ''null'')"
| "dict_key lim (PInt i) = intstr lim i"
| "dict_key lim _ = Inl TypeError"

text \<open>
  In \<open>_iterencode_list\<close> the opening bracket or the separator (\<open>buf\<close>) is glued to the text
  of a string, \<open>None\<close>, bool, int or float that follows and yielded with it as one chunk, so
  that nothing of it is yielded when the conversion of the int raises; before a list, a
  dict or any other object \<open>buf\<close> is yielded on its own. \<open>scalar\<close> is the text of the
  values of the first kind.
\<close>

fun scalar :: "nat \<Rightarrow> pyval \<Rightarrow> (error + pystr) option" where
  "scalar lim (PStr s) = Some (Inr (encode_basestring_ascii s))"
| "scalar lim PNone = Some (Inr (asc ''null''))"
| "scalar lim (PBool b) = Some (Inr (if b then asc ''true'' else asc ''false''))"
| "scalar lim (PInt i) = Some (intstr lim i)"
| "scalar lim (PFloat t) = Some (Inr t)"
| "scalar lim _ = None"

definition glued :: "pystr \<Rightarrow> (error + pystr) option \<Rightarrow> chunks \<Rightarrow> chunks" where
  "glued buf sc chunks_of_value =
     (case sc of
        Some (Inl e) \<Rightarrow> raise e
      | Some (Inr t) \<Rightarrow> yield (buf @ t)
      | None \<Rightarrow> andthen (yield buf) chunks_of_value)"

text \<open>
  \<open>_iterencode\<close>, \<open>_iterencode_list\<close> and \<open>_iterencode_dict\<close>, under the limit \<open>lim\<close> on the
  digits of an int. \<open>iterencode_rest\<close> is the loop of \<open>_iterencode_list\<close> after the first
  item, \<open>iterencode_pair\<close> one round of the loop of \<open>_iterencode_dict\<close>, in which the key is
  converted before anything of the pair is yielded.
\<close>

fun iterencode :: "nat \<Rightarrow> pyval \<Rightarrow> chunks"
  and iterencode_rest :: "nat \<Rightarrow> pyval list \<Rightarrow> chunks"
  and iterencode_pair :: "nat \<Rightarrow> bool \<Rightarrow> pyval \<Rightarrow> pyval \<Rightarrow> chunks"
  and iterencode_pairs :: "nat \<Rightarrow> (pyval \<times> pyval) list \<Rightarrow> chunks"
where
  "iterencode lim (PStr s) = yield (encode_basestring_ascii s)"
| "iterencode lim PNone = yield (asc ''null'')"
| "iterencode lim (PBool b) = yield (if b then asc ''true'' else asc ''false'')"
| "iterencode lim (PInt i) = (case intstr lim i of Inl e \<Rightarrow> raise e | Inr t \<Rightarrow> yield t)"
| "iterencode lim (PFloat t) = yield t"
| "iterencode lim (PList []) = yield (asc ''[]'')"
| "iterencode lim (PList (v # vs)) =
     andthen (glued (asc ''['') (scalar lim v) (iterencode lim v))
       (andthen (iterencode_rest lim vs) (yield (asc '']'')))"
| "iterencode lim (PTuple []) = yield (asc ''[]'')"
| "iterencode lim (PTuple (v # vs)) =
     andthen (glued (asc ''['') (scalar lim v) (iterencode lim v))
       (andthen (iterencode_rest lim vs) (yield (asc '']'')))"
| "iterencode lim (PDict []) = yield (asc ''{}'')"
| "iterencode lim (PDict ((k, v) # kvs)) =
     andthen (yield (asc ''{''))
       (andthen (iterencode_pair lim True k v) (andthen (iterencode_pairs lim kvs) (yield (asc ''}''))))"
| "iterencode lim (PObject n) = raise TypeError"
| "iterencode_rest lim [] = nothing"
| "iterencode_rest lim (v # vs) =
     andthen (glued (asc '', '') (scalar lim v) (iterencode lim v)) (iterencode_rest lim vs)"
| "iterencode_pair lim first k v =
     (case dict_key lim k of
        Inl e \<Rightarrow> raise e
      | Inr key \<Rightarrow>
          andthen (if first then nothing else yield (asc '', ''))
            (andthen (yield (encode_basestring_ascii key))
               (andthen (yield (asc '': '')) (iterencode lim v))))"
| "iterencode_pairs lim [] = nothing"
| "iterencode_pairs lim ((k, v) # kvs) =
     andthen (iterencode_pair lim False k v) (iterencode_pairs lim kvs)"

text \<open>\<open>for chunk in iterable: fp.write(chunk)\<close>\<close>

fun write_chunks :: "pystr list \<Rightarrow> error option \<Rightarrow> string \<Rightarrow> world \<Rightarrow> (error + unit) \<times> world" where
  "write_chunks [] None f w = (Inr (), w)"
| "write_chunks [] (Some e) f w = (Inl e, w)"
| "write_chunks (c # cs) e f w =
     (case write_file f c w of
        Inl e' \<Rightarrow> (Inl e', w)
      | Inr w' \<Rightarrow> write_chunks cs e f w')"

definition json_dump :: "pyval \<Rightarrow> string \<Rightarrow> world \<Rightarrow> (error + unit) \<times> world" where
  "json_dump obj f w =
     (case iterencode (int_max_str_digits w) obj of (cs, e) \<Rightarrow> write_chunks cs e f w)"

section \<open>\<open>json.load\<close>\<close>

text \<open>
  The decoder with its default settings (\<open>strict=True\<close>, no hooks). A scanner takes the
  text from the current position on and returns the value with the text that is left.
\<close>

definition is_ws :: "nat \<Rightarrow> bool" where
  "is_ws c = (c = 0x20 \<or> c = 0x09 \<or> c = 0x0A \<or> c = 0x0D)"

definition skip_ws :: "pystr \<Rightarrow> pystr" where
  "skip_ws = dropWhile is_ws"

definition starts_with :: "pystr \<Rightarrow> pystr \<Rightarrow> bool" where
  "starts_with p s = (take (length p) s = p)"

definition hexval :: "nat \<Rightarrow> nat option" where
  "hexval c =
     (if 0x30 \<le> c \<and> c \<le> 0x39 then Some (c - 0x30)
      else if 0x61 \<le> c \<and> c \<le> 0x66 then Some (c - 0x61 + 10)
      else if 0x41 \<le> c \<and> c \<le> 0x46 then Some (c - 0x41 + 10)
      else None)"

text \<open>The four hex digits after \<open>\\u\<close>.\<close>

definition decode_uXXXX :: "pystr \<Rightarrow> nat option" where
  "decode_uXXXX s =
     (case map hexval (take 4 s) of
        [Some a, Some b, Some c, Some d] \<Rightarrow> Some (((a * 16 + b) * 16 + c) * 16 + d)
      | _ \<Rightarrow> None)"

text \<open>The table \<open>BACKSLASH\<close>.\<close>

definition backslash :: "nat \<Rightarrow> nat option" where
  "backslash esc =
     (if esc = 0x22 then Some 0x22
      else if esc = 0x5C then Some 0x5C
      else if esc = 0x2F then Some 0x2F
      else if esc = 0x62 then Some 0x08
      else if esc = 0x66 then Some 0x0C
      else if esc = 0x6E then Some 0x0A
      else if esc = 0x72 then Some 0x0D
      else if esc = 0x74 then Some 0x09
      else None)"

text \<open>
  One round of the loop of \<open>scanstring\<close>: the closing quote, one character (plain or
  escaped; a high surrogate escape followed by a low surrogate escape is joined into one
  code point), or an error.
\<close>

datatype str_step = StrEnd pystr | StrChar nat pystr | StrErr decode_msg

definition string_step :: "pystr \<Rightarrow> str_step" where
  "string_step s =
     (case s of
        [] \<Rightarrow> StrErr UnterminatedString
      | c # r \<Rightarrow>
          if c = 0x22 then StrEnd r
          else if c = 0x5C then
            (case r of
               [] \<Rightarrow> StrErr UnterminatedString
             | esc # r1 \<Rightarrow>
                 if esc \<noteq> 0x75 then
                   (case backslash esc of
                      None \<Rightarrow> StrErr InvalidEscape
                    | Some ch \<Rightarrow> StrChar ch r1)
                 else
                   (case decode_uXXXX r1 of
                      None \<Rightarrow> StrErr InvalidUXXXXEscape
                    | Some uni \<Rightarrow>
                        (let r2 = drop 4 r1 in
                         if 0xD800 \<le> uni \<and> uni \<le> 0xDBFF \<and> take 2 r2 = [0x5C, 0x75] then
                           (case decode_uXXXX (drop 2 r2) of
                              None \<Rightarrow> StrErr InvalidUXXXXEscape
                            | Some uni2 \<Rightarrow>
                                if 0xDC00 \<le> uni2 \<and> uni2 \<le> 0xDFFF
                                then StrChar (0x10000 + ((uni - 0xD800) * 1024 + (uni2 - 0xDC00))) (drop 6 r2)
                                else StrChar uni r2)
                         else StrChar uni r2)))
          else if c < 0x20 then StrErr InvalidControlCharacter
          else StrChar c r)"

lemma string_step_char_shorter: "string_step s = StrChar c r \<Longrightarrow> length r < length s"
  by (auto simp: string_step_def Let_def split: list.splits if_splits option.splits)

text \<open>\<open>scanstring\<close>, called just after the opening quote.\<close>

function scanstring :: "pystr \<Rightarrow> error + (pystr \<times> pystr)" where
  "scanstring s =
     (case string_step s of
        StrErr m \<Rightarrow> Inl (JSONDecodeError m)
      | StrEnd r \<Rightarrow> Inr ([], r)
      | StrChar c r \<Rightarrow>
          (case scanstring r of
             Inl e \<Rightarrow> Inl e
           | Inr (t, r') \<Rightarrow> Inr (c # t, r')))"
  by pat_completeness auto
termination
  by (relation "measure length") (auto dest: string_step_char_shorter)

declare scanstring.simps [simp del]

text \<open>
  \<open>NUMBER_RE\<close>: \<open>(-?(?:0|[1-9][0-9]*))(\.[0-9]+)?([eE][-+]?[0-9]+)?\<close>. The result is the
  integer part, the fraction and the exponent (empty when the group did not match), and
  the text after the match.
\<close>

definition is_digit :: "nat \<Rightarrow> bool" where
  "is_digit c = (0x30 \<le> c \<and> c \<le> 0x39)"

definition match_integer :: "pystr \<Rightarrow> (pystr \<times> pystr) option" where
  "match_integer s =
     (case s of
        [] \<Rightarrow> None
      | c # r \<Rightarrow>
          if c = 0x30 then Some ([c], r)
          else if 0x31 \<le> c \<and> c \<le> 0x39 then Some (c # takeWhile is_digit r, dropWhile is_digit r)
          else None)"

definition match_frac :: "pystr \<Rightarrow> pystr \<times> pystr" where
  "match_frac s =
     (case s of
        c # d # r \<Rightarrow>
          if c = 0x2E \<and> is_digit d then (c # d # takeWhile is_digit r, dropWhile is_digit r)
          else ([], s)
      | _ \<Rightarrow> ([], s))"

definition match_exp :: "pystr \<Rightarrow> pystr \<times> pystr" where
  "match_exp s =
     (case s of
        [] \<Rightarrow> ([], s)
      | c # r \<Rightarrow>
          if c = 0x65 \<or> c = 0x45 then
            (let (sg, r1) = (case r of
                               [] \<Rightarrow> ([], r)
                             | d # r' \<Rightarrow> if d = 0x2D \<or> d = 0x2B then ([d], r') else ([], r))
             in case r1 of
                  [] \<Rightarrow> ([], s)
                | d # r2 \<Rightarrow>
                    if is_digit d then (c # sg @ d # takeWhile is_digit r2, dropWhile is_digit r2)
                    else ([], s))
          else ([], s))"

definition match_number :: "pystr \<Rightarrow> (pystr \<times> pystr \<times> pystr \<times> pystr) option" where
  "match_number s =
     (let (sg, s1) = (case s of
                        [] \<Rightarrow> ([], s)
                      | c # r \<Rightarrow> if c = 0x2D then ([c], r) else ([], s))
      in case match_integer s1 of
           None \<Rightarrow> None
         | Some (i, s2) \<Rightarrow>
             (let (f, s3) = match_frac s2; (e, s4) = match_exp s3
              in Some (sg @ i, f, e, s4)))"

text \<open>The number that a run of decimal digits writes.\<close>

definition dec_val :: "pystr \<Rightarrow> nat" where
  "dec_val s = foldl (\<lambda>a c. 10 * a + (c - 0x30)) 0 s"

text \<open>
  \<open>int(integer)\<close> on the text \<open>NUMBER_RE\<close> matched, under the limit \<open>lim\<close> of the
  interpreter: \<open>ValueError\<close> when the text has more digits than a limit that is not 0.
\<close>

definition parse_int :: "nat \<Rightarrow> pystr \<Rightarrow> error + int" where
  "parse_int lim s =
     (case s of
        [] \<Rightarrow> Inr 0
      | c # r \<Rightarrow>
          if 0 < lim \<and> lim < length (if c = 0x2D then r else s) then Inl ValueError
          else Inr (if c = 0x2D then - int (dec_val r) else int (dec_val s)))"

text \<open>
  The branches of \<open>scan_once\<close> that do not recurse: \<open>null\<close>, \<open>true\<close>, \<open>false\<close>, a number,
  \<open>NaN\<close>, \<open>Infinity\<close>, \<open>-Infinity\<close>; anything else is \<open>StopIteration\<close>, which every caller
  turns into the error "Expecting value".
\<close>

definition scan_atom :: "nat \<Rightarrow> pystr \<Rightarrow> error + (pyval \<times> pystr)" where
  "scan_atom lim s =
     (if starts_with (asc ''null'') s then Inr (PNone, drop 4 s)
      else if starts_with (asc ''true'') s then Inr (PBool True, drop 4 s)
      else if starts_with (asc ''false'') s then Inr (PBool False, drop 5 s)
      else
        (case match_number s of
           Some (i, f, e, r) \<Rightarrow>
             if f \<noteq> [] \<or> e \<noteq> [] then Inr (PFloat (i @ f @ e), r)
             else (case parse_int lim i of Inl err \<Rightarrow> Inl err | Inr n \<Rightarrow> Inr (PInt n, r))
         | None \<Rightarrow>
             if starts_with (asc ''NaN'') s then Inr (PFloat (asc ''NaN''), drop 3 s)
             else if starts_with (asc ''Infinity'') s then Inr (PFloat (asc ''Infinity''), drop 8 s)
             else if starts_with (asc ''-Infinity'') s then Inr (PFloat (asc ''-Infinity''), drop 9 s)
             else Inl (JSONDecodeError ExpectingValue)))"

text \<open>\<open>dict(pairs)\<close>: a later pair with a key already present replaces its value in place.\<close>

fun dict_set :: "(pyval \<times> pyval) list \<Rightarrow> pyval \<Rightarrow> pyval \<Rightarrow> (pyval \<times> pyval) list" where
  "dict_set [] k v = [(k, v)]"
| "dict_set ((k', v') # d) k v = (if k' = k then (k', v) # d else (k', v') # dict_set d k v)"

definition dict_of :: "(pyval \<times> pyval) list \<Rightarrow> (pyval \<times> pyval) list" where
  "dict_of pairs = foldl (\<lambda>d (k, v). dict_set d k v) [] pairs"

text \<open>
  \<open>scan_once\<close> with \<open>JSONObject\<close> and \<open>JSONArray\<close>. \<open>array_loop\<close> is the loop of
  \<open>JSONArray\<close>, entered at the first value; \<open>object_loop\<close> is the loop of \<open>JSONObject\<close>,
  entered just after the opening quote of a key.
\<close>

function (domintros) scan_once :: "nat \<Rightarrow> pystr \<Rightarrow> error + (pyval \<times> pystr)"
  and array_loop :: "nat \<Rightarrow> pystr \<Rightarrow> error + (pyval list \<times> pystr)"
  and object_loop :: "nat \<Rightarrow> pystr \<Rightarrow> error + ((pyval \<times> pyval) list \<times> pystr)"
where
  "scan_once lim s =
     (case s of
        [] \<Rightarrow> Inl (JSONDecodeError ExpectingValue)
      | c # r \<Rightarrow>
          if c = 0x22 then
            (case scanstring r of
               Inl e \<Rightarrow> Inl e
             | Inr (t, r') \<Rightarrow> Inr (PStr t, r'))
          else if c = 0x7B then
            (case skip_ws r of
               [] \<Rightarrow> Inl (JSONDecodeError ExpectingPropertyName)
             | d # r1 \<Rightarrow>
                 if d = 0x7D then Inr (PDict [], r1)
                 else if d \<noteq> 0x22 then Inl (JSONDecodeError ExpectingPropertyName)
                 else
                   (case object_loop lim r1 of
                      Inl e \<Rightarrow> Inl e
                    | Inr (pairs, r2) \<Rightarrow> Inr (PDict (dict_of pairs), r2)))
          else if c = 0x5B then
            (case skip_ws r of
               [] \<Rightarrow> Inl (JSONDecodeError ExpectingValue)
             | d # r1 \<Rightarrow>
                 if d = 0x5D then Inr (PList [], r1)
                 else
                   (case array_loop lim (d # r1) of
                      Inl e \<Rightarrow> Inl e
                    | Inr (vals, r2) \<Rightarrow> Inr (PList vals, r2)))
          else scan_atom lim s)"
| "array_loop lim s =
     (case scan_once lim s of
        Inl e \<Rightarrow> Inl e
      | Inr (v, r) \<Rightarrow>
          (case skip_ws r of
             [] \<Rightarrow> Inl (JSONDecodeError ExpectingComma)
           | c # r1 \<Rightarrow>
               if c = 0x5D then Inr ([v], r1)
               else if c \<noteq> 0x2C then Inl (JSONDecodeError ExpectingComma)
               else
                 (case array_loop lim (skip_ws r1) of
                    Inl e \<Rightarrow> Inl e
                  | Inr (vs, r2) \<Rightarrow> Inr (v # vs, r2))))"
| "object_loop lim s =
     (case scanstring s of
        Inl e \<Rightarrow> Inl e
      | Inr (key, r) \<Rightarrow>
          (case skip_ws r of
             [] \<Rightarrow> Inl (JSONDecodeError ExpectingColon)
           | c # r1 \<Rightarrow>
               if c \<noteq> 0x3A then Inl (JSONDecodeError ExpectingColon)
               else
                 (case scan_once lim (skip_ws r1) of
                    Inl e \<Rightarrow> Inl e
                  | Inr (v, r2) \<Rightarrow>
                      (case skip_ws r2 of
                         [] \<Rightarrow> Inl (JSONDecodeError ExpectingComma)
                       | d # r3 \<Rightarrow>
                           if d = 0x7D then Inr ([(PStr key, v)], r3)
                           else if d \<noteq> 0x2C then Inl (JSONDecodeError ExpectingComma)
                           else
                             (case skip_ws r3 of
                                [] \<Rightarrow> Inl (JSONDecodeError ExpectingPropertyName)
                              | q # r4 \<Rightarrow>
                                  if q \<noteq> 0x22 then Inl (JSONDecodeError ExpectingPropertyName)
                                  else
                                    (case object_loop lim r4 of
                                       Inl e \<Rightarrow> Inl e
                                     | Inr (pairs, r5) \<Rightarrow> Inr ((PStr key, v) # pairs, r5)))))))"
  by pat_completeness auto


lemma skip_ws_length: "length (skip_ws s) \<le> length s"
  by (simp add: skip_ws_def length_dropWhile_le)

lemma skip_ws_Cons_length: "skip_ws s = c # r \<Longrightarrow> length r < length s"
  using skip_ws_length [of s] by simp

lemma scanstring_shorter: "scanstring s = Inr (t, r) \<Longrightarrow> length r < length s"
proof (induction s arbitrary: t rule: scanstring.induct)
  case (1 s)
  show ?case
  proof (cases "string_step s")
    case (StrEnd r')
    with "1.prems" have "r = r'" by (simp add: scanstring.simps [of s])
    moreover from StrEnd have "s = 0x22 # r'"
      by (auto simp: string_step_def Let_def split: list.splits if_splits option.splits)
    ultimately show ?thesis by simp
  next
    case (StrChar c r')
    with "1.prems" obtain t' where "scanstring r' = Inr (t', r)"
      by (auto simp: scanstring.simps [of s] split: sum.splits)
    with "1.IH" StrChar have "length r < length r'" by blast
    with string_step_char_shorter [OF StrChar] show ?thesis by simp
  next
    case (StrErr m)
    with "1.prems" show ?thesis by (simp add: scanstring.simps [of s])
  qed
qed

lemma match_frac_length: "match_frac s = (f, r) \<Longrightarrow> length r \<le> length s"
  by (auto simp: match_frac_def length_dropWhile_le le_SucI split: list.splits if_splits)

lemma match_exp_length: "match_exp s = (e, r) \<Longrightarrow> length r \<le> length s"
  by (auto simp: match_exp_def Let_def length_dropWhile_le le_SucI split: list.splits if_splits prod.splits)

lemma match_integer_shorter: "match_integer s = Some (i, r) \<Longrightarrow> length r < length s"
  by (auto simp: match_integer_def length_dropWhile_le less_Suc_eq_le split: list.splits if_splits)

lemma match_number_shorter: "match_number s = Some (i, f, e, r) \<Longrightarrow> length r < length s"
  apply (auto simp: match_number_def Let_def split: list.splits if_splits prod.splits option.splits
      dest!: match_frac_length match_exp_length match_integer_shorter)
  done

lemma starts_with_nonempty: "starts_with (asc (c # cs)) s \<Longrightarrow> s \<noteq> []"
  by (auto simp: starts_with_def asc_def)

lemma drop_shorter: "s \<noteq> [] \<Longrightarrow> 0 < n \<Longrightarrow> length (drop n s) < length s"
  by (cases s) auto

lemma scan_atom_shorter: "scan_atom lim s = Inr (v, r) \<Longrightarrow> length r < length s"
  unfolding scan_atom_def
  by (auto split: if_splits option.splits sum.splits
      dest: match_number_shorter dest!: starts_with_nonempty intro!: drop_shorter simp del: length_drop)

lemma scan_once_shorter_dom:
  "scan_once_array_loop_object_loop_dom (Inl (lim, s)) \<Longrightarrow> scan_once lim s = Inr (v, r) \<Longrightarrow> length r < length s"
  "scan_once_array_loop_object_loop_dom (Inr (Inl (lim, s1))) \<Longrightarrow> array_loop lim s1 = Inr (vs, r1) \<Longrightarrow> length r1 < length s1"
  "scan_once_array_loop_object_loop_dom (Inr (Inr (lim, s2))) \<Longrightarrow> object_loop lim s2 = Inr (ps, r2) \<Longrightarrow> length r2 < length s2"
proof (induction lim s and lim s1 and lim s2 arbitrary: v r and vs r1 and ps r2 rule: scan_once_array_loop_object_loop.pinduct)
  case (1 lim s)
  show ?case
  proof (cases s)
    case Nil
    with "1.prems" "1.hyps" show ?thesis by (simp add: scan_once.psimps)
  next
    case (Cons c t)
    consider (str) "c = 0x22" | (obj) "c \<noteq> 0x22" "c = 0x7B" | (arr) "c \<noteq> 0x22" "c \<noteq> 0x7B" "c = 0x5B"
      | (atom) "c \<noteq> 0x22" "c \<noteq> 0x7B" "c \<noteq> 0x5B" by blast
    then show ?thesis
    proof cases
      case str
      with "1.prems" "1.hyps" Cons show ?thesis
        by (auto simp: scan_once.psimps split: sum.splits dest: scanstring_shorter)
    next
      case obj
      show ?thesis
      proof (cases "skip_ws t")
        case Nil
        with "1.prems" "1.hyps" Cons obj show ?thesis by (simp add: scan_once.psimps)
      next
        case (Cons d r1)
        note sk = skip_ws_Cons_length [OF Cons]
        show ?thesis
        proof (cases "d = 0x22")
          case True
          with "1.prems" "1.hyps" \<open>s = c # t\<close> obj Cons obtain ps where ol: "object_loop lim r1 = Inr (ps, r)"
            by (auto simp: scan_once.psimps split: sum.splits if_splits)
          have "length r < length r1"
            using "1.IH"(1) [OF \<open>s = c # t\<close> obj Cons _ _ ol] True by simp
          with sk \<open>s = c # t\<close> show ?thesis by simp
        next
          case False
          with "1.prems" "1.hyps" \<open>s = c # t\<close> obj Cons sk show ?thesis
            by (auto simp: scan_once.psimps split: if_splits)
        qed
      qed
    next
      case arr
      show ?thesis
      proof (cases "skip_ws t")
        case Nil
        with "1.prems" "1.hyps" Cons arr show ?thesis by (simp add: scan_once.psimps)
      next
        case (Cons d r1)
        note sk = skip_ws_Cons_length [OF Cons]
        show ?thesis
        proof (cases "d = 0x5D")
          case True
          with "1.prems" "1.hyps" \<open>s = c # t\<close> arr Cons sk show ?thesis
            by (auto simp: scan_once.psimps)
        next
          case False
          with "1.prems" "1.hyps" \<open>s = c # t\<close> arr Cons obtain vs where al: "array_loop lim (d # r1) = Inr (vs, r)"
            by (auto simp: scan_once.psimps split: sum.splits if_splits)
          have "length r < length (d # r1)"
            using "1.IH"(2) [OF \<open>s = c # t\<close> arr Cons False al] .
          with sk \<open>s = c # t\<close> show ?thesis by simp
        qed
      qed
    next
      case atom
      with "1.prems" "1.hyps" Cons have "scan_atom lim s = Inr (v, r)"
        by (simp add: scan_once.psimps)
      then show ?thesis by (rule scan_atom_shorter)
    qed
  qed
next
  case (2 lim s)
  from "2.prems" "2.hyps" obtain v r where so: "scan_once lim s = Inr (v, r)"
    by (auto simp: array_loop.psimps split: sum.splits)
  have l1: "length r < length s" using "2.IH"(1) [OF so] .
  show ?case
  proof (cases "skip_ws r")
    case Nil
    with "2.prems" "2.hyps" so show ?thesis by (simp add: array_loop.psimps)
  next
    case (Cons c t)
    note sk = skip_ws_Cons_length [OF Cons]
    show ?thesis
    proof (cases "c = 0x5D")
      case True
      with "2.prems" "2.hyps" so Cons sk l1 show ?thesis by (auto simp: array_loop.psimps)
    next
      case False
      show ?thesis
      proof (cases "c = 0x2C")
        case True
        with "2.prems" "2.hyps" so Cons False obtain vs' where al: "array_loop lim (skip_ws t) = Inr (vs', r1)"
          by (auto simp: array_loop.psimps split: sum.splits)
        have "length r1 < length (skip_ws t)"
          using "2.IH"(2) [OF so refl Cons False _ al] True by simp
        with skip_ws_length [of t] sk l1 show ?thesis by simp
      next
        case c: False
        with "2.prems" "2.hyps" so Cons False show ?thesis by (simp add: array_loop.psimps)
      qed
    qed
  qed
next
  case (3 lim s)
  from "3.prems" "3.hyps" obtain key r where ss: "scanstring s = Inr (key, r)"
    by (auto simp: object_loop.psimps split: sum.splits)
  note l0 = scanstring_shorter [OF ss]
  from "3.prems" "3.hyps" ss obtain t where sk1: "skip_ws r = 0x3A # t"
    by (auto simp: object_loop.psimps split: list.splits if_splits)
  note l1 = skip_ws_Cons_length [OF sk1]
  from "3.prems" "3.hyps" ss sk1 obtain v r' where so: "scan_once lim (skip_ws t) = Inr (v, r')"
    by (auto simp: object_loop.psimps split: sum.splits)
  have l2: "length r' < length (skip_ws t)"
    using "3.IH"(1) [OF ss refl sk1 _ so] by simp
  from "3.prems" "3.hyps" ss sk1 so obtain d t' where sk2: "skip_ws r' = d # t'"
    by (auto simp: object_loop.psimps split: list.splits)
  note l3 = skip_ws_Cons_length [OF sk2]
  have base: "length t' < length s"
    using l0 l1 l2 l3 skip_ws_length [of t] by simp
  show ?case
  proof (cases "d = 0x7D")
    case True
    with "3.prems" "3.hyps" ss sk1 so sk2 base show ?thesis by (auto simp: object_loop.psimps)
  next
    case False
    with "3.prems" "3.hyps" ss sk1 so sk2 have d: "d = 0x2C"
      by (auto simp: object_loop.psimps split: if_splits)
    with "3.prems" "3.hyps" ss sk1 so sk2 False obtain t'' where sk3: "skip_ws t' = 0x22 # t''"
      by (auto simp: object_loop.psimps split: list.splits if_splits)
    note l4 = skip_ws_Cons_length [OF sk3]
    from "3.prems" "3.hyps" ss sk1 so sk2 False d sk3 obtain ps' where ol: "object_loop lim t'' = Inr (ps', r2)"
      by (auto simp: object_loop.psimps split: sum.splits)
    have "length r2 < length t''"
      using "3.IH"(2) [OF ss refl sk1 _ so refl sk2 False _ sk3 _ ol] d by simp
    with base l4 show ?thesis by simp
  qed
qed

termination scan_once
proof (relation "measure (\<lambda>x. case x of Inl (l, s) \<Rightarrow> 2 * length s | Inr (Inl (l, s)) \<Rightarrow> 2 * length s + 1 | Inr (Inr (l, s)) \<Rightarrow> 2 * length s + 1)", goal_cases)
  case 1
  show ?case by simp
next
  case (2 lim s c t d r1)
  then show ?case using skip_ws_Cons_length [of t d r1] by simp
next
  case (3 lim s c t d r1)
  then show ?case using skip_ws_Cons_length [of t d r1] by simp
next
  case (4 lim s)
  show ?case by simp
next
  case (5 lim s b v r c t)
  then show ?case
    using scan_once_shorter_dom(1) [of lim s v r] skip_ws_Cons_length [of r c t] skip_ws_length [of t] by simp
next
  case (6 lim s b key r c t)
  then show ?case
    using scanstring_shorter [of s key r] skip_ws_Cons_length [of r c t] skip_ws_length [of t] by simp
next
  case (7 lim s b key r c t b' v r' d t' q t'')
  then show ?case
    using scanstring_shorter [of s key r] skip_ws_Cons_length [of r c t] skip_ws_length [of t]
      scan_once_shorter_dom(1) [of lim "skip_ws t" v r'] skip_ws_Cons_length [of r' d t']
      skip_ws_Cons_length [of t' q t'']
    by simp
qed

declare scan_once.simps [simp del] array_loop.simps [simp del] object_loop.simps [simp del]



text \<open>
  \<open>json.loads\<close>, under the limit \<open>lim\<close> on the digits of an int: no byte order mark, one
  value surrounded by white space, nothing else.
\<close>

definition json_loads :: "nat \<Rightarrow> pystr \<Rightarrow> error + pyval" where
  "json_loads lim s =
     (if starts_with [0xFEFF] s then Inl (JSONDecodeError UnexpectedBOM)
      else
        (case scan_once lim (skip_ws s) of
           Inl e \<Rightarrow> Inl e
         | Inr (obj, r) \<Rightarrow>
             if skip_ws r \<noteq> [] then Inl (JSONDecodeError ExtraData) else Inr obj))"

text \<open>\<open>json.load(fp)\<close> is \<open>json.loads(fp.read())\<close>.\<close>

definition json_load :: "string \<Rightarrow> world \<Rightarrow> (error + pyval) \<times> world" where
  "json_load f w =
     (case read_file f w of
        Inl e \<Rightarrow> (Inl e, w)
      | Inr s \<Rightarrow> (json_loads (int_max_str_digits w) s, w))"

section \<open>The store\<close>

definition file_name :: string where
  "file_name = ''todo.json''"

definition save :: "pyval \<Rightarrow> world \<Rightarrow> (error + unit) \<times> world" where
  "save todo_list w = with_open file_name Write (\<lambda>f. json_dump todo_list f) w"

definition fetch :: "world \<Rightarrow> pyval \<times> world" where
  "fetch w =
     (case with_open file_name Read (\<lambda>f. json_load f) w of
        (Inr todo_list, w') \<Rightarrow> (todo_list, w')
      | (Inl ee, w') \<Rightarrow> (PList [], print ee w'))"

text \<open>A task record \<open>{'id': int, 'content': str, 'status': str}\<close> and the dict that carries it.\<close>

record task =
  t_id :: int
  t_content :: pystr
  t_status :: pystr

definition item :: "task \<Rightarrow> pyval" where
  "item t =
     PDict [(PStr (asc ''id''), PInt (t_id t)),
            (PStr (asc ''content''), PStr (t_content t)),
            (PStr (asc ''status''), PStr (t_status t))]"

definition todo :: "task list \<Rightarrow> pyval" where
  "todo ts = PList (map item ts)"

section \<open>What a round trip makes of a value\<close>

text \<open>
  What decoding makes of an encoded string: a high surrogate (\<open>0xD800..0xDBFF\<close>) directly
  followed by a low surrogate (\<open>0xDC00..0xDFFF\<close>) becomes the one code point the pair
  stands for in UTF-16; everything else stays.
\<close>
fun join_surrogates :: "pystr \<Rightarrow> pystr" where
  "join_surrogates (c # d # s) =
     (if 0xD800 \<le> c \<and> c \<le> 0xDBFF \<and> 0xDC00 \<le> d \<and> d \<le> 0xDFFF
      then (0x10000 + ((c - 0xD800) * 1024 + (d - 0xDC00))) # join_surrogates s
      else c # join_surrogates (d # s))"
| "join_surrogates [c] = [c]"
| "join_surrogates [] = []"

text \<open>The int has no more digits than the limit allows.\<close>
definition int_fits :: "nat \<Rightarrow> int \<Rightarrow> bool" where
  "int_fits lim i \<longleftrightarrow> lim = 0 \<or> length (digits (nat \<bar>i\<bar>)) \<le> lim"

text \<open>Text at which a number that was just matched cannot go on.\<close>
definition number_end :: "pystr \<Rightarrow> bool" where
  "number_end rest = (case rest of [] \<Rightarrow> True | c # _ \<Rightarrow> \<not> is_digit c \<and> c \<noteq> 0x2E \<and> c \<noteq> 0x65 \<and> c \<noteq> 0x45)"

text \<open>The text the encoder yields for a value (up to the exception, if it raises).\<close>
definition text_of :: "nat \<Rightarrow> pyval \<Rightarrow> pystr" where
  "text_of lim v = concat (fst (iterencode lim v))"

text \<open>The string a dict key is written as (when its conversion does not raise).\<close>
definition key_text :: "pyval \<Rightarrow> pystr" where
  "key_text k = (case dict_key 0 k of Inr s \<Rightarrow> s | Inl _ \<Rightarrow> [])"

text \<open>
  What decoding makes of an encoded value: surrogate pairs in strings are joined, tuples
  come back as lists, dict keys come back as strings (a later equal key replacing the
  value of an earlier one).
\<close>
fun norm :: "pyval \<Rightarrow> pyval" where
  "norm (PStr s) = PStr (join_surrogates s)"
| "norm (PList vs) = PList (map norm vs)"
| "norm (PTuple vs) = PList (map norm vs)"
| "norm (PDict kvs) = PDict (dict_of (map (\<lambda>(k, v). (PStr (join_surrogates (key_text k)), norm v)) kvs))"
| "norm v = v"

text \<open>Every element is a code point, that is, the list is a Python \<open>str\<close>.\<close>
definition valid_str :: "pystr \<Rightarrow> bool" where
  "valid_str s = list_all (\<lambda>c. c < 0x110000) s"

text \<open>
  The values the round trip is proved for: \<open>None\<close>, bools, ints, strings, and lists, tuples
  and dicts of such values, with dict keys that are strings, ints, bools or \<open>None\<close>
  (\<open>plain\<close>); and that every int in the value, keys included, has no more digits than the
  limit allows (\<open>fits\<close>).
\<close>
fun plain_key :: "pyval \<Rightarrow> bool" where
  "plain_key (PStr s) = valid_str s"
| "plain_key (PInt i) = True"
| "plain_key (PBool b) = True"
| "plain_key PNone = True"
| "plain_key _ = False"

fun plain :: "pyval \<Rightarrow> bool" where
  "plain (PStr s) = valid_str s"
| "plain (PList vs) = list_all plain vs"
| "plain (PTuple vs) = list_all plain vs"
| "plain (PDict kvs) = list_all (\<lambda>(k, v). plain_key k \<and> plain v) kvs"
| "plain PNone = True"
| "plain (PBool b) = True"
| "plain (PInt i) = True"
| "plain (PFloat t) = False"
| "plain (PObject n) = False"

fun fits :: "nat \<Rightarrow> pyval \<Rightarrow> bool" where
  "fits lim (PInt i) = int_fits lim i"
| "fits lim (PList vs) = list_all (fits lim) vs"
| "fits lim (PTuple vs) = list_all (fits lim) vs"
| "fits lim (PDict kvs) = list_all (\<lambda>(k, v). fits lim k \<and> fits lim v) kvs"
| "fits lim (PStr s) = True"
| "fits lim PNone = True"
| "fits lim (PBool b) = True"
| "fits lim (PFloat t) = True"
| "fits lim (PObject n) = True"

text \<open>
  The induction invariant: encoding \<open>v\<close> raises nothing, the text starts with a character
  that is neither white space nor a closing bracket, and scanning the text, whatever
  follows it, returns \<open>norm v\<close> and stops right after it.
\<close>
definition rt :: "nat \<Rightarrow> pyval \<Rightarrow> bool" where
  "rt lim v \<longleftrightarrow>
     snd (iterencode lim v) = None \<and>
     (\<exists>c t. text_of lim v = c # t \<and> \<not> is_ws c \<and> c \<noteq> 0x5D \<and> c \<noteq> 0xFEFF) \<and>
     (\<forall>rest. number_end rest \<longrightarrow> scan_once lim (text_of lim v @ rest) = Inr (norm v, rest))"

definition rest_ok :: "nat \<Rightarrow> pyval list \<Rightarrow> bool" where
  "rest_ok lim vs \<longleftrightarrow>
     (list_all plain vs \<and> list_all (fits lim) vs \<longrightarrow>
        snd (iterencode_rest lim vs) = None \<and>
        (\<forall>v0 rest. rt lim v0 \<longrightarrow>
           array_loop lim (text_of lim v0 @ concat (fst (iterencode_rest lim vs)) @ 0x5D # rest) =
             Inr (norm v0 # map norm vs, rest)))"

definition pair_ok :: "nat \<Rightarrow> bool \<Rightarrow> pyval \<Rightarrow> pyval \<Rightarrow> bool" where
  "pair_ok lim first k v \<longleftrightarrow>
     (plain_key k \<and> plain v \<and> fits lim k \<and> fits lim v \<longrightarrow>
        rt lim v \<and> snd (iterencode_pair lim first k v) = None \<and>
        concat (fst (iterencode_pair lim first k v)) =
          (if first then [] else [0x2C, 0x20]) @
          0x22 # concat (map escape_char (key_text k)) @ 0x22 # 0x3A # 0x20 # text_of lim v)"

definition norm_pair :: "pyval \<times> pyval \<Rightarrow> pyval \<times> pyval" where
  "norm_pair = (\<lambda>(k, v). (PStr (join_surrogates (key_text k)), norm v))"

definition pairs_ok :: "nat \<Rightarrow> (pyval \<times> pyval) list \<Rightarrow> bool" where
  "pairs_ok lim kvs \<longleftrightarrow>
     (list_all (\<lambda>(k, v). plain_key k \<and> plain v) kvs \<and>
      list_all (\<lambda>(k, v). fits lim k \<and> fits lim v) kvs \<longrightarrow>
        snd (iterencode_pairs lim kvs) = None \<and>
        (\<forall>ks v0 rest. valid_str ks \<longrightarrow> rt lim v0 \<longrightarrow>
           object_loop lim (concat (map escape_char ks) @ 0x22 # 0x3A # 0x20 # text_of lim v0 @
                        concat (fst (iterencode_pairs lim kvs)) @ 0x7D # rest) =
             Inr ((PStr (join_surrogates ks), norm v0) # map norm_pair kvs, rest)))"

text \<open>How a loop over a generator ends: normally, or with the generator's exception.\<close>
definition outcome :: "error option \<Rightarrow> error + unit" where
  "outcome e = (case e of None \<Rightarrow> Inr () | Some x \<Rightarrow> Inl x)"

text \<open>The string holds a high surrogate directly followed by a low surrogate.\<close>
fun has_pair :: "pystr \<Rightarrow> bool" where
  "has_pair (c # d # s) =
     ((0xD800 \<le> c \<and> c \<le> 0xDBFF \<and> 0xDC00 \<le> d \<and> d \<le> 0xDFFF) \<or> has_pair (d # s))"
| "has_pair [c] = False"
| "has_pair [] = False"

definition valid_task :: "task \<Rightarrow> bool" where
  "valid_task t \<longleftrightarrow> valid_str (t_content t) \<and> valid_str (t_status t)"

text \<open>The id of the record has no more digits than the limit allows.\<close>
definition id_fits :: "nat \<Rightarrow> task \<Rightarrow> bool" where
  "id_fits lim t \<longleftrightarrow> int_fits lim (t_id t)"

definition pair_free :: "task \<Rightarrow> bool" where
  "pair_free t \<longleftrightarrow> \<not> has_pair (t_content t) \<and> \<not> has_pair (t_status t)"

definition norm_task :: "task \<Rightarrow> task" where
  "norm_task t = t\<lparr>t_content := join_surrogates (t_content t), t_status := join_surrogates (t_status t)\<rparr>"

text \<open>
  A world with no file, nothing denied, free space and the interpreter's default limit of
  4300 digits; and a task record.
\<close>
definition empty_world :: world where
  "empty_world = \<lparr>files = Map.empty, read_denied = {}, write_denied = {}, disk_full = False,
     handles = [], stdout = [], int_max_str_digits = 4300\<rparr>"

definition milk :: task where
  "milk = \<lparr>t_id = 1, t_content = asc ''buy milk'', t_status = asc ''open''\<rparr>"

text \<open>A task record whose id has 4301 digits.\<close>
definition big :: task where
  "big = \<lparr>t_id = 10 ^ 4300, t_content = asc ''pay'', t_status = asc ''open''\<rparr>"

section \<open>Strings: decoding what \<open>encode_basestring_ascii\<close> wrote\<close>

lemma hexval_hexdigit: "d < 16 \<Longrightarrow> hexval (hexdigit d) = Some d"
  by (auto simp: hexval_def hexdigit_def)

lemma hex4_value:
  fixes n :: nat
  assumes "n < 0x10000"
  shows "((n div 4096 mod 16 * 16 + n div 256 mod 16) * 16 + n div 16 mod 16) * 16 + n mod 16 = n"
proof -
  have a: "n div 256 = n div 16 div 16" and b: "n div 4096 = n div 16 div 16 div 16"
    by (simp_all add: div_mult2_eq)
  from assms have c: "n div 4096 mod 16 = n div 4096" by simp
  have "n = n div 16 * 16 + n mod 16" by simp
  also have "n div 16 = n div 16 div 16 * 16 + n div 16 mod 16" by simp
  also have "n div 16 div 16 = n div 16 div 16 div 16 * 16 + n div 16 div 16 mod 16" by simp
  finally show ?thesis unfolding a b c [unfolded b] by simp
qed

lemma decode_digits:
  assumes "a < 16" "b < 16" "c < 16" "d < 16"
  shows "decode_uXXXX (hexdigit a # hexdigit b # hexdigit c # hexdigit d # t) =
           Some (((a * 16 + b) * 16 + c) * 16 + d)"
  using assms by (simp add: decode_uXXXX_def hexval_hexdigit)

lemma decode_u_escape:
  assumes "n < 0x10000"
  shows "decode_uXXXX (drop 2 (u_escape n) @ t) = Some n"
proof -
  have "decode_uXXXX (hexdigit (n div 4096 mod 16) # hexdigit (n div 256 mod 16) #
           hexdigit (n div 16 mod 16) # hexdigit (n mod 16) # t) =
        Some (((n div 4096 mod 16 * 16 + n div 256 mod 16) * 16 + n div 16 mod 16) * 16 + n mod 16)"
    by (rule decode_digits) simp_all
  also have "\<dots> = Some n"
    by (simp only: hex4_value [OF assms])
  finally show ?thesis by (simp add: u_escape_def)
qed

lemma length_u_escape [simp]: "length (u_escape n) = 6"
  by (simp add: u_escape_def)

lemma step_backslash_u:
  assumes "decode_uXXXX r1 = Some uni" "drop 4 r1 = t"
  shows "string_step (0x5C # 0x75 # r1) =
     (if 0xD800 \<le> uni \<and> uni \<le> 0xDBFF \<and> take 2 t = [0x5C, 0x75] then
        (case decode_uXXXX (drop 2 t) of
           None \<Rightarrow> StrErr InvalidUXXXXEscape
         | Some uni2 \<Rightarrow>
             if 0xDC00 \<le> uni2 \<and> uni2 \<le> 0xDFFF
             then StrChar (0x10000 + ((uni - 0xD800) * 1024 + (uni2 - 0xDC00))) (drop 6 t)
             else StrChar uni t)
      else StrChar uni t)"
  using assms by (auto simp: string_step_def Let_def split: option.splits)

lemma u_escape_Cons: "u_escape n @ t = 0x5C # 0x75 # (drop 2 (u_escape n) @ t)"
  by (simp add: u_escape_def)

lemma step_u_escape:
  assumes "n < 0x10000"
  shows "string_step (u_escape n @ t) =
     (if 0xD800 \<le> n \<and> n \<le> 0xDBFF \<and> take 2 t = [0x5C, 0x75] then
        (case decode_uXXXX (drop 2 t) of
           None \<Rightarrow> StrErr InvalidUXXXXEscape
         | Some uni2 \<Rightarrow>
             if 0xDC00 \<le> uni2 \<and> uni2 \<le> 0xDFFF
             then StrChar (0x10000 + ((n - 0xD800) * 1024 + (uni2 - 0xDC00))) (drop 6 t)
             else StrChar n t)
      else StrChar n t)"
proof -
  have d: "decode_uXXXX (drop 2 (u_escape n) @ t) = Some n"
    by (rule decode_u_escape [OF assms])
  have l: "drop 4 (drop 2 (u_escape n) @ t) = t"
    by simp
  show ?thesis
    unfolding u_escape_Cons [of n t] by (rule step_backslash_u [OF d l])
qed

lemma step_u_escape_plain:
  assumes "n < 0x10000" "\<not> (0xD800 \<le> n \<and> n \<le> 0xDBFF)"
  shows "string_step (u_escape n @ t) = StrChar n t"
  using assms(2) unfolding step_u_escape [OF assms(1)] by auto

lemma take2_u_escape: "take 2 (u_escape m @ t) = [0x5C, 0x75]"
  by (simp add: u_escape_def)

lemma step_u_escape_pair:
  assumes "0xD800 \<le> n" "n \<le> 0xDBFF" "0xDC00 \<le> m" "m \<le> 0xDFFF"
  shows "string_step (u_escape n @ u_escape m @ t) =
           StrChar (0x10000 + ((n - 0xD800) * 1024 + (m - 0xDC00))) t"
proof -
  from assms have n: "n < 0x10000" and m: "m < 0x10000" by simp_all
  have d2: "decode_uXXXX (drop 2 (u_escape m @ t)) = Some m"
    using decode_u_escape [OF m, of t] by simp
  have d6: "drop 6 (u_escape m @ t) = t" by simp
  show ?thesis
    unfolding step_u_escape [OF n] take2_u_escape d2 d6 using assms by simp
qed

lemma step_u_escape_nopair:
  assumes "n < 0x10000" "m < 0x10000" "\<not> (0xDC00 \<le> m \<and> m \<le> 0xDFFF)"
  shows "string_step (u_escape n @ u_escape m @ t) = StrChar n (u_escape m @ t)"
proof -
  have d2: "decode_uXXXX (drop 2 (u_escape m @ t)) = Some m"
    using decode_u_escape [OF assms(2), of t] by simp
  show ?thesis
    unfolding step_u_escape [OF assms(1)] take2_u_escape d2 using assms(3) by auto
qed

lemma step_u_escape_other:
  assumes "n < 0x10000" "take 2 t \<noteq> [0x5C, 0x75]"
  shows "string_step (u_escape n @ t) = StrChar n t"
  unfolding step_u_escape [OF assms(1)] using assms(2) by simp

lemma step_escape_simple:
  assumes "c < 0x10000" "\<not> (0xD800 \<le> c \<and> c \<le> 0xDBFF)"
  shows "string_step (escape_char c @ t) = StrChar c t"
proof -
  consider (short) "c = 0x5C \<or> c = 0x22 \<or> c = 0x08 \<or> c = 0x0C \<or> c = 0x0A \<or> c = 0x0D \<or> c = 0x09"
    | (printable) "c \<noteq> 0x5C" "c \<noteq> 0x22" "0x20 \<le> c" "c \<le> 0x7E"
    | (other) "c \<noteq> 0x5C" "c \<noteq> 0x22" "c \<noteq> 0x08" "c \<noteq> 0x0C" "c \<noteq> 0x0A" "c \<noteq> 0x0D" "c \<noteq> 0x09"
        "\<not> (0x20 \<le> c \<and> c \<le> 0x7E)"
    by blast
  then show ?thesis
  proof cases
    case short
    then show ?thesis
      by (auto simp: escape_char_def string_step_def backslash_def)
  next
    case printable
    then show ?thesis
      by (auto simp: escape_char_def string_step_def)
  next
    case other
    with assms(1) have "escape_char c = u_escape c"
      by (auto simp: escape_char_def)
    then show ?thesis
      by (simp add: step_u_escape_plain [OF assms])
  qed
qed

lemma step_escape_astral:
  assumes "0x10000 \<le> c" "c < 0x110000"
  shows "string_step (escape_char c @ t) = StrChar c t"
proof -
  define n where "n = c - 0x10000"
  have c: "c = 0x10000 + n" and n: "n < 0x100000"
    using assms by (simp_all add: n_def)
  have e: "escape_char c = u_escape (0xD800 + n div 1024 mod 1024) @ u_escape (0xDC00 + n mod 1024)"
    using assms by (simp add: escape_char_def n_def Let_def)
  have "string_step (u_escape (0xD800 + n div 1024 mod 1024) @ u_escape (0xDC00 + n mod 1024) @ t) =
          StrChar (0x10000 + ((0xD800 + n div 1024 mod 1024 - 0xD800) * 1024 + (0xDC00 + n mod 1024 - 0xDC00))) t"
    by (rule step_u_escape_pair) simp_all
  moreover have "n div 1024 mod 1024 = n div 1024"
    using n by simp
  ultimately have "string_step (u_escape (0xD800 + n div 1024 mod 1024) @ u_escape (0xDC00 + n mod 1024) @ t) =
          StrChar c t"
    by (simp add: c)
  then show ?thesis
    unfolding e by simp
qed

lemma escape_char_high:
  "0xD800 \<le> c \<Longrightarrow> c \<le> 0xDFFF \<Longrightarrow> escape_char c = u_escape c"
  by (simp add: escape_char_def)

lemma escape_char_shape:
  assumes "d < 0x110000" "\<not> (0xDC00 \<le> d \<and> d \<le> 0xDFFF)"
  shows "(\<exists>m t1. escape_char d = u_escape m @ t1 \<and> m < 0x10000 \<and> \<not> (0xDC00 \<le> m \<and> m \<le> 0xDFFF))
         \<or> take 2 (escape_char d @ t) \<noteq> [0x5C, 0x75]"
proof (cases "d < 0x10000")
  case True
  show ?thesis
  proof (cases "escape_char d = u_escape d")
    case e: True
    have "escape_char d = u_escape d @ []" using e by simp
    with True assms(2) show ?thesis by blast
  next
    case False
    with True have "take 2 (escape_char d @ t) \<noteq> [0x5C, 0x75]"
      by (auto simp: escape_char_def split: if_splits)
    then show ?thesis ..
  qed
next
  case False
  define n where "n = d - 0x10000"
  have "escape_char d = u_escape (0xD800 + n div 1024 mod 1024) @ u_escape (0xDC00 + n mod 1024)"
    using False by (simp add: escape_char_def n_def Let_def)
  moreover have "0xD800 + n div 1024 mod 1024 < (0x10000::nat)"
    and "\<not> (0xDC00 \<le> 0xD800 + n div 1024 mod 1024 \<and> 0xD800 + n div 1024 mod 1024 \<le> (0xDFFF::nat))"
    by simp_all
  ultimately show ?thesis by blast
qed

lemma step_high_then_other:
  assumes "0xD800 \<le> c" "c \<le> 0xDBFF" "d < 0x110000" "\<not> (0xDC00 \<le> d \<and> d \<le> 0xDFFF)"
  shows "string_step (escape_char c @ escape_char d @ t) = StrChar c (escape_char d @ t)"
proof -
  from assms have c: "c < 0x10000" and e: "escape_char c = u_escape c"
    by (simp_all add: escape_char_high)
  from escape_char_shape [OF assms(3,4), of t] show ?thesis
  proof
    assume "\<exists>m t1. escape_char d = u_escape m @ t1 \<and> m < 0x10000 \<and> \<not> (0xDC00 \<le> m \<and> m \<le> 0xDFFF)"
    then obtain m t1 where m: "escape_char d = u_escape m @ t1" "m < 0x10000" "\<not> (0xDC00 \<le> m \<and> m \<le> 0xDFFF)"
      by blast
    show ?thesis
      using step_u_escape_nopair [OF c m(2,3), of "t1 @ t"] by (simp add: e m(1))
  next
    assume "take 2 (escape_char d @ t) \<noteq> [0x5C, 0x75]"
    then show ?thesis
      unfolding e by (rule step_u_escape_other [OF c])
  qed
qed

lemma step_high_then_low:
  assumes "0xD800 \<le> c" "c \<le> 0xDBFF" "0xDC00 \<le> d" "d \<le> 0xDFFF"
  shows "string_step (escape_char c @ escape_char d @ t) =
           StrChar (0x10000 + ((c - 0xD800) * 1024 + (d - 0xDC00))) t"
proof -
  from assms have "escape_char c = u_escape c" "escape_char d = u_escape d"
    by (simp_all add: escape_char_high)
  then show ?thesis
    using step_u_escape_pair [OF assms] by simp
qed

lemma step_high_then_quote:
  assumes "0xD800 \<le> c" "c \<le> 0xDBFF"
  shows "string_step (escape_char c @ 0x22 # t) = StrChar c (0x22 # t)"
proof -
  from assms have c: "c < 0x10000" and e: "escape_char c = u_escape c"
    by (simp_all add: escape_char_high)
  show ?thesis unfolding e by (rule step_u_escape_other [OF c]) simp
qed

lemma scanstring_quote: "scanstring (0x22 # t) = Inr ([], t)"
  by (simp add: scanstring.simps [of "0x22 # t"] string_step_def)

lemma scanstring_char:
  "string_step s = StrChar c r \<Longrightarrow> scanstring r = Inr (t, r') \<Longrightarrow> scanstring s = Inr (c # t, r')"
  by (simp add: scanstring.simps [of s])

theorem scanstring_escaped:
  assumes "\<forall>c\<in>set s. c < 0x110000"
  shows "scanstring (concat (map escape_char s) @ 0x22 # rest) = Inr (join_surrogates s, rest)"
  using assms
proof (induction s rule: join_surrogates.induct)
  case (1 c d s)
  let ?T = "concat (map escape_char s) @ 0x22 # rest"
  from "1.prems" have c: "c < 0x110000" and d: "d < 0x110000" and s: "\<forall>c\<in>set s. c < 0x110000"
    and ds: "\<forall>c\<in>set (d # s). c < 0x110000"
    by simp_all
  show ?case
  proof (cases "0xD800 \<le> c \<and> c \<le> 0xDBFF")
    case high: True
    show ?thesis
    proof (cases "0xDC00 \<le> d \<and> d \<le> 0xDFFF")
      case low: True
      have "string_step (escape_char c @ escape_char d @ ?T) =
              StrChar (0x10000 + ((c - 0xD800) * 1024 + (d - 0xDC00))) ?T"
        using high low by (intro step_high_then_low) simp_all
      moreover have "scanstring ?T = Inr (join_surrogates s, rest)"
        using "1.IH"(1) high low s by simp
      ultimately show ?thesis
        using high low by (auto simp: scanstring_char)
    next
      case nolow: False
      have "string_step (escape_char c @ escape_char d @ ?T) = StrChar c (escape_char d @ ?T)"
        using high nolow d by (intro step_high_then_other) simp_all
      moreover have "scanstring (escape_char d @ ?T) = Inr (join_surrogates (d # s), rest)"
      proof -
        from nolow have "\<not> (0xD800 \<le> c \<and> c \<le> 0xDBFF \<and> 0xDC00 \<le> d \<and> d \<le> 0xDFFF)" by blast
        from "1.IH"(2) [OF this ds] show ?thesis by simp
      qed
      ultimately show ?thesis
        using nolow by (auto simp: scanstring_char)
    qed
  next
    case nohigh: False
    have "string_step (escape_char c @ escape_char d @ ?T) = StrChar c (escape_char d @ ?T)"
    proof (cases "c < 0x10000")
      case True
      then show ?thesis using nohigh by (intro step_escape_simple) simp_all
    next
      case False
      then show ?thesis using c by (intro step_escape_astral) simp_all
    qed
    moreover have "scanstring (escape_char d @ ?T) = Inr (join_surrogates (d # s), rest)"
    proof -
      from nohigh have "\<not> (0xD800 \<le> c \<and> c \<le> 0xDBFF \<and> 0xDC00 \<le> d \<and> d \<le> 0xDFFF)" by blast
      from "1.IH"(2) [OF this ds] show ?thesis by simp
    qed
    ultimately show ?thesis
      using nohigh by (auto simp: scanstring_char)
  qed
next
  case 3
  show ?case by (simp add: scanstring_quote)
next
  case (2 c)
  then have c: "c < 0x110000" by simp
  have "string_step (escape_char c @ 0x22 # rest) = StrChar c (0x22 # rest)"
  proof (cases "0xD800 \<le> c \<and> c \<le> 0xDBFF")
    case True
    then show ?thesis by (intro step_high_then_quote) simp_all
  next
    case nohigh: False
    show ?thesis
    proof (cases "c < 0x10000")
      case True
      then show ?thesis using nohigh by (intro step_escape_simple) simp_all
    next
      case False
      then show ?thesis using c by (intro step_escape_astral) simp_all
    qed
  qed
  then show ?case
    by (simp add: scanstring_char scanstring_quote)
qed

section \<open>Integers: decoding what \<open>int.__repr__\<close> wrote\<close>

lemma digits_is_digit: "\<forall>c\<in>set (digits n). is_digit c"
proof (induction n rule: digits.induct)
  case (1 n)
  show ?case
  proof (cases "n < 10")
    case True
    then show ?thesis by (simp add: digits.simps [of n] is_digit_def)
  next
    case False
    with 1 show ?thesis by (auto simp: digits.simps [of n] is_digit_def)
  qed
qed

lemma digits_nonempty: "digits n \<noteq> []"
  by (subst digits.simps) simp

lemma digits_zero: "digits 0 = [0x30]"
  by (simp add: digits.simps [of 0])

lemma hd_digits_pos: "0 < n \<Longrightarrow> 0x31 \<le> hd (digits n) \<and> hd (digits n) \<le> 0x39"
proof (induction n rule: digits.induct)
  case (1 n)
  show ?case
  proof (cases "n < 10")
    case True
    with "1.prems" show ?thesis by (simp add: digits.simps [of n])
  next
    case False
    then have "0 < n div 10" by simp
    with "1.IH" False have "0x31 \<le> hd (digits (n div 10)) \<and> hd (digits (n div 10)) \<le> 0x39" by simp
    with False show ?thesis by (simp add: digits.simps [of n] digits_nonempty)
  qed
qed

lemma dec_val_snoc: "dec_val (xs @ [c]) = 10 * dec_val xs + (c - 0x30)"
  by (simp add: dec_val_def)

lemma dec_val_digits: "dec_val (digits n) = n"
proof (induction n rule: digits.induct)
  case (1 n)
  show ?case
  proof (cases "n < 10")
    case True
    then show ?thesis by (simp add: digits.simps [of n] dec_val_def)
  next
    case False
    with 1 show ?thesis by (simp add: digits.simps [of n] dec_val_snoc)
  qed
qed

lemma takeWhile_digits:
  assumes "\<forall>c\<in>set ds. is_digit c" "number_end rest"
  shows "takeWhile is_digit (ds @ rest) = ds" "dropWhile is_digit (ds @ rest) = rest"
  using assms by (auto simp: number_end_def takeWhile_append dropWhile_append split: list.splits)

lemma match_integer_digits:
  assumes "number_end rest"
  shows "match_integer (digits n @ rest) = Some (digits n, rest)"
proof (cases "n = 0")
  case True
  then show ?thesis by (simp add: digits_zero match_integer_def)
next
  case False
  then have h: "0x31 \<le> hd (digits n) \<and> hd (digits n) \<le> 0x39" by (simp add: hd_digits_pos)
  obtain c ds where cd: "digits n = c # ds" using digits_nonempty [of n] by (cases "digits n") auto
  with digits_is_digit [of n] have ds: "\<forall>c\<in>set ds. is_digit c" by simp
  from h cd show ?thesis
    by (simp add: match_integer_def takeWhile_digits [OF ds assms])
qed

lemma match_frac_end: "number_end rest \<Longrightarrow> match_frac rest = ([], rest)"
  by (auto simp: match_frac_def number_end_def split: list.splits)

lemma match_exp_end: "number_end rest \<Longrightarrow> match_exp rest = ([], rest)"
  by (auto simp: match_exp_def number_end_def split: list.splits)

lemma hd_digits_not_minus: "hd (digits n) \<noteq> 0x2D"
  using digits_is_digit [of n] digits_nonempty [of n] by (cases "digits n") (auto simp: is_digit_def)

lemma intstr_fits: "intstr lim i = (if int_fits lim i then Inr (int_repr i) else Inl ValueError)"
  by (auto simp: intstr_def int_fits_def)

lemma match_number_int_repr:
  assumes "number_end rest"
  shows "match_number (int_repr i @ rest) = Some (int_repr i, [], [], rest)"
proof (cases "i < 0")
  case True
  then show ?thesis
    by (simp add: int_repr_def match_number_def match_integer_digits [OF assms]
        match_frac_end [OF assms] match_exp_end [OF assms])
next
  case False
  obtain c ds where cd: "digits (nat i) = c # ds"
    using digits_nonempty [of "nat i"] by (cases "digits (nat i)") auto
  with hd_digits_not_minus [of "nat i"] have c: "c \<noteq> 0x2D" by simp
  have "match_integer (c # ds @ rest) = Some (c # ds, rest)"
    using match_integer_digits [OF assms, of "nat i"] cd by simp
  with False c show ?thesis
    by (simp add: int_repr_def match_number_def cd match_frac_end [OF assms] match_exp_end [OF assms])
qed

lemma parse_int_int_repr:
  "parse_int lim (int_repr i) = (if int_fits lim i then Inr i else Inl ValueError)"
proof (cases "i < 0")
  case True
  then have "nat \<bar>i\<bar> = nat (- i)" by simp
  with True show ?thesis
    by (auto simp: int_repr_def parse_int_def dec_val_digits int_fits_def)
next
  case False
  obtain c ds where cd: "digits (nat i) = c # ds"
    using digits_nonempty [of "nat i"] by (cases "digits (nat i)") auto
  with hd_digits_not_minus [of "nat i"] have c: "c \<noteq> 0x2D" by simp
  have d: "dec_val (c # ds) = nat i" using dec_val_digits [of "nat i"] cd by simp
  from False have a: "nat \<bar>i\<bar> = nat i" by simp
  have l: "length (digits (nat \<bar>i\<bar>)) = Suc (length ds)" by (simp add: a cd)
  from False c show ?thesis
    by (auto simp: int_repr_def parse_int_def cd d int_fits_def l)
qed

lemma hd_int_repr: "\<exists>c t. int_repr i = c # t \<and> (is_digit c \<or> c = 0x2D)"
proof (cases "i < 0")
  case True
  then show ?thesis by (simp add: int_repr_def)
next
  case False
  obtain c ds where cd: "digits (nat i) = c # ds"
    using digits_nonempty [of "nat i"] by (cases "digits (nat i)") auto
  with digits_is_digit [of "nat i"] have "is_digit c" by simp
  with False cd show ?thesis by (simp add: int_repr_def)
qed

lemma scan_atom_int_repr:
  assumes "number_end rest" "int_fits lim i"
  shows "scan_atom lim (int_repr i @ rest) = Inr (PInt i, rest)"
proof -
  obtain c t where ct: "int_repr i = c # t" "is_digit c \<or> c = 0x2D" using hd_int_repr by blast
  then have "\<not> starts_with (asc ''null'') (int_repr i @ rest)"
    "\<not> starts_with (asc ''true'') (int_repr i @ rest)"
    "\<not> starts_with (asc ''false'') (int_repr i @ rest)"
    by (auto simp: starts_with_def asc_def is_digit_def)
  then show ?thesis
    by (simp add: scan_atom_def match_number_int_repr [OF assms(1)] parse_int_int_repr assms(2))
qed

lemma scan_once_int_repr:
  assumes "number_end rest" "int_fits lim i"
  shows "scan_once lim (int_repr i @ rest) = Inr (PInt i, rest)"
proof -
  obtain c t where ct: "int_repr i = c # t" "is_digit c \<or> c = 0x2D" using hd_int_repr by blast
  then have "scan_once lim (int_repr i @ rest) = scan_atom lim (int_repr i @ rest)"
    by (auto simp: scan_once.simps [of lim "c # t @ rest"] is_digit_def)
  then show ?thesis by (simp add: scan_atom_int_repr [OF assms])
qed

lemma scan_once_string:
  assumes "\<forall>c\<in>set s. c < 0x110000"
  shows "scan_once lim (encode_basestring_ascii s @ rest) = Inr (PStr (join_surrogates s), rest)"
  by (simp add: encode_basestring_ascii_def scan_once.simps [of lim "0x22 # _"] scanstring_escaped [OF assms])

text \<open>An int of at least \<open>10 ^ k\<close> has more than \<open>k\<close> digits.\<close>
lemma digits_longer: "10 ^ k \<le> n \<Longrightarrow> k < length (digits n)"
proof (induction k arbitrary: n)
  case 0
  then show ?case using digits_nonempty [of n] by (cases "digits n") auto
next
  case (Suc k)
  from Suc.prems have p: "10 * 10 ^ k \<le> n" by simp
  have a: "(10::nat) \<le> 10 * 10 ^ k" by simp
  from p a have n: "\<not> n < 10" by linarith
  from p have d: "10 ^ k \<le> n div 10" by simp
  from Suc.IH [OF d] n show ?case by (simp add: digits.simps [of n])
qed

lemma digits_length_le: "0 < k \<Longrightarrow> n < 10 ^ k \<Longrightarrow> length (digits n) \<le> k"
proof (induction k arbitrary: n)
  case 0
  then show ?case by simp
next
  case (Suc k)
  show ?case
  proof (cases "n < 10")
    case True
    then show ?thesis by (simp add: digits.simps [of n])
  next
    case False
    from Suc.prems(2) have d: "n div 10 < 10 ^ k"
      by (simp add: div_less_iff_less_mult mult.commute)
    from False d have "0 < k" by (cases k) auto
    from Suc.IH [OF this d] False show ?thesis by (simp add: digits.simps [of n])
  qed
qed

text \<open>With a limit of \<open>lim\<close> digits, the ints that fit are those below \<open>10 ^ lim\<close> in size.\<close>
lemma int_fits_iff: "int_fits lim i \<longleftrightarrow> lim = 0 \<or> \<bar>i\<bar> < 10 ^ lim"
proof (cases "lim = 0")
  case True
  then show ?thesis by (simp add: int_fits_def)
next
  case False
  have "length (digits (nat \<bar>i\<bar>)) \<le> lim \<longleftrightarrow> nat \<bar>i\<bar> < 10 ^ lim"
  proof
    assume "length (digits (nat \<bar>i\<bar>)) \<le> lim"
    then show "nat \<bar>i\<bar> < 10 ^ lim"
      using digits_longer [of lim "nat \<bar>i\<bar>"] by (cases "nat \<bar>i\<bar> < 10 ^ lim") auto
  next
    assume "nat \<bar>i\<bar> < 10 ^ lim"
    with False show "length (digits (nat \<bar>i\<bar>)) \<le> lim" by (simp add: digits_length_le)
  qed
  moreover have "nat \<bar>i\<bar> < 10 ^ lim \<longleftrightarrow> \<bar>i\<bar> < 10 ^ lim"
    by (simp add: nat_less_iff)
  ultimately show ?thesis using False by (simp add: int_fits_def)
qed

lemma small_int_fits: "\<bar>i\<bar> < 10 \<Longrightarrow> int_fits lim i"
proof -
  assume "\<bar>i\<bar> < 10"
  then have "nat \<bar>i\<bar> < 10" by simp
  then have "length (digits (nat \<bar>i\<bar>)) = 1" by (simp add: digits.simps [of "nat \<bar>i\<bar>"])
  then show ?thesis by (cases "lim = 0") (simp_all add: int_fits_def)
qed

lemma power_of_ten_unfit: "0 < lim \<Longrightarrow> lim \<le> k \<Longrightarrow> \<not> int_fits lim (10 ^ k)"
proof -
  assume l: "0 < lim" "lim \<le> k"
  have "(10::int) ^ lim \<le> 10 ^ k" using l(2) by (intro power_increasing) simp_all
  then have "\<not> \<bar>(10::int) ^ k\<bar> < 10 ^ lim" by simp
  with l(1) show ?thesis by (simp add: int_fits_iff)
qed

section \<open>Values: decoding what the encoder wrote\<close>

lemma rtD_scan: "rt lim v \<Longrightarrow> number_end rest \<Longrightarrow> scan_once lim (text_of lim v @ rest) = Inr (norm v, rest)"
  by (simp add: rt_def)

lemma skip_ws_nonws: "\<not> is_ws c \<Longrightarrow> skip_ws (c # s) = c # s"
  by (simp add: skip_ws_def)

lemma skip_ws_space: "skip_ws (0x20 # s) = skip_ws s"
  by (simp add: skip_ws_def is_ws_def)

lemma skip_ws_Nil: "skip_ws [] = []"
  by (simp add: skip_ws_def)

lemma rtD_skip: "rt lim v \<Longrightarrow> skip_ws (text_of lim v @ tl0) = text_of lim v @ tl0"
  by (auto simp: rt_def skip_ws_nonws)

lemma rtD_head: "rt lim v \<Longrightarrow> \<exists>c t. text_of lim v = c # t \<and> \<not> is_ws c \<and> c \<noteq> 0x5D \<and> c \<noteq> 0xFEFF"
  by (simp add: rt_def)

lemma number_end_simps:
  "number_end []" "number_end (0x2C # s)" "number_end (0x5D # s)" "number_end (0x7D # s)"
  by (simp_all add: number_end_def is_digit_def)

lemma valid_str_iff: "valid_str s \<longleftrightarrow> (\<forall>c\<in>set s. c < 0x110000)"
  by (simp add: valid_str_def list_all_iff)

lemma rt_str: "valid_str s \<Longrightarrow> rt lim (PStr s)"
  by (simp add: rt_def text_of_def yield_def scan_once_string valid_str_iff)
    (simp add: encode_basestring_ascii_def is_ws_def)

lemma rt_none: "rt lim PNone"
  by (simp add: rt_def text_of_def yield_def asc_def is_ws_def
      scan_once.simps [of lim "110 # _"] scan_atom_def starts_with_def)

lemma rt_bool: "rt lim (PBool b)"
  by (cases b) (simp_all add: rt_def text_of_def yield_def asc_def is_ws_def
      scan_once.simps [of lim "116 # _"] scan_once.simps [of lim "102 # _"] scan_atom_def starts_with_def)

lemma rt_int:
  assumes "int_fits lim i"
  shows "rt lim (PInt i)"
proof -
  obtain c t where ct: "int_repr i = c # t" "is_digit c \<or> c = 0x2D" using hd_int_repr by blast
  then have h: "\<not> is_ws c \<and> c \<noteq> 0x5D \<and> c \<noteq> 0xFEFF" by (auto simp: is_digit_def is_ws_def)
  have e: "iterencode lim (PInt i) = yield (int_repr i)"
    using assms by (simp add: intstr_fits)
  then have t: "text_of lim (PInt i) = int_repr i" by (simp add: text_of_def yield_def)
  from ct(1) h t have "\<exists>c t. text_of lim (PInt i) = c # t \<and> \<not> is_ws c \<and> c \<noteq> 0x5D \<and> c \<noteq> 0xFEFF"
    by simp
  moreover have "snd (iterencode lim (PInt i)) = None" by (simp only: e) (simp add: yield_def)
  ultimately show ?thesis
    unfolding rt_def t by (simp add: scan_once_int_repr assms)
qed

lemma array_loop_last:
  assumes "rt lim v0"
  shows "array_loop lim (text_of lim v0 @ 0x5D # rest) = Inr ([norm v0], rest)"
  by (simp add: array_loop.simps [of lim "text_of lim v0 @ _"] rtD_scan [OF assms] number_end_simps
      skip_ws_nonws is_ws_def)

lemma array_loop_more:
  assumes "rt lim v0" "rt lim v" "array_loop lim (text_of lim v @ tl0) = Inr (ns, rest)"
  shows "array_loop lim (text_of lim v0 @ 0x2C # 0x20 # text_of lim v @ tl0) = Inr (norm v0 # ns, rest)"
  by (simp add: array_loop.simps [of lim "text_of lim v0 @ _"] rtD_scan [OF assms(1)] number_end_simps
      skip_ws_nonws is_ws_def skip_ws_space rtD_skip [OF assms(2)] assms(3))

lemma scan_once_array:
  assumes "rt lim v" "array_loop lim (text_of lim v @ tl0) = Inr (ns, rest)"
  shows "scan_once lim (0x5B # text_of lim v @ tl0) = Inr (PList ns, rest)"
proof -
  from rtD_head [OF assms(1)] obtain c t where ct: "text_of lim v = c # t" "\<not> is_ws c" "c \<noteq> 0x5D"
    by blast
  have "skip_ws (text_of lim v @ tl0) = c # t @ tl0" using ct by (simp add: skip_ws_nonws)
  with ct(3) assms(2) show ?thesis
    by (simp add: scan_once.simps [of lim "0x5B # _"] ct(1))
qed

lemma object_loop_last:
  assumes "valid_str ks" "rt lim v0"
  shows "object_loop lim (concat (map escape_char ks) @ 0x22 # 0x3A # 0x20 # text_of lim v0 @ 0x7D # rest) =
           Inr ([(PStr (join_surrogates ks), norm v0)], rest)"
  using assms(1)
  by (simp add: object_loop.simps [of lim "concat _ @ _"] scanstring_escaped valid_str_iff
      skip_ws_nonws is_ws_def skip_ws_space rtD_skip [OF assms(2)] rtD_scan [OF assms(2)] number_end_simps)

lemma object_loop_more:
  assumes "valid_str ks" "rt lim v0" "object_loop lim X = Inr (ps, rest)"
  shows "object_loop lim (concat (map escape_char ks) @ 0x22 # 0x3A # 0x20 # text_of lim v0 @ 0x2C # 0x20 # 0x22 # X) =
           Inr ((PStr (join_surrogates ks), norm v0) # ps, rest)"
  using assms(1)
  by (simp add: object_loop.simps [of lim "concat _ @ _"] scanstring_escaped valid_str_iff
      skip_ws_nonws is_ws_def skip_ws_space rtD_skip [OF assms(2)] rtD_scan [OF assms(2)]
      number_end_simps assms(3))

lemma scan_once_object:
  assumes "object_loop lim X = Inr (ps, rest)"
  shows "scan_once lim (0x7B # 0x22 # X) = Inr (PDict (dict_of ps), rest)"
  by (simp add: scan_once.simps [of lim "0x7B # _"] skip_ws_nonws is_ws_def assms)

lemma andthen_ok:
  "snd a = None \<Longrightarrow> snd (andthen a b) = snd b"
  "snd a = None \<Longrightarrow> concat (fst (andthen a b)) = concat (fst a) @ concat (fst b)"
  by (simp_all add: andthen_def)

lemma snd_andthen: "snd (andthen a b) = (case snd a of None \<Rightarrow> snd b | Some e \<Rightarrow> Some e)"
  by (simp add: andthen_def split: option.splits)

lemma yield_simps: "snd (yield c) = None" "concat (fst (yield c)) = c"
  by (simp_all add: yield_def)

lemma nothing_simps: "snd nothing = None" "concat (fst nothing) = []"
  by (simp_all add: nothing_def)

lemma raise_simps: "snd (raise e) = Some e" "fst (raise e) = []"
  by (simp_all add: raise_def)

lemma scalar_iterencode:
  "scalar lim v = Some r \<Longrightarrow> iterencode lim v = (case r of Inl e \<Rightarrow> raise e | Inr t \<Rightarrow> yield t)"
  by (cases "(lim, v)" rule: scalar.cases) auto

lemma snd_glued: "snd (glued buf (scalar lim v) (iterencode lim v)) = snd (iterencode lim v)"
proof (cases "scalar lim v")
  case None
  then show ?thesis by (simp add: glued_def snd_andthen yield_simps)
next
  case (Some r)
  from scalar_iterencode [OF Some] Some show ?thesis
    by (cases r) (simp_all add: glued_def raise_simps yield_simps)
qed

lemma glued_ok:
  assumes "snd (iterencode lim v) = None"
  shows "snd (glued buf (scalar lim v) (iterencode lim v)) = None"
    and "concat (fst (glued buf (scalar lim v) (iterencode lim v))) = buf @ text_of lim v"
proof -
  show "snd (glued buf (scalar lim v) (iterencode lim v)) = None"
    by (simp add: snd_glued assms)
  show "concat (fst (glued buf (scalar lim v) (iterencode lim v))) = buf @ text_of lim v"
  proof (cases "scalar lim v")
    case None
    then show ?thesis by (simp add: glued_def andthen_ok yield_simps text_of_def)
  next
    case (Some r)
    note i = scalar_iterencode [OF Some]
    show ?thesis
    proof (cases r)
      case (Inl e)
      with i assms show ?thesis by (simp add: raise_simps)
    next
      case (Inr t)
      with i Some show ?thesis by (simp add: glued_def text_of_def yield_def)
    qed
  qed
qed

lemma digits_valid: "valid_str (digits n)"
  using digits_is_digit [of n] by (auto simp: valid_str_iff is_digit_def)

lemma plain_key_valid:
  assumes "plain_key k"
  shows "valid_str (key_text k)"
  using assms digits_valid
  by (cases "(0::nat, k)" rule: dict_key.cases)
     (auto simp: key_text_def intstr_def int_repr_def asc_def valid_str_def)

lemma plain_dict_key:
  assumes "plain_key k"
  shows "dict_key lim k = (if fits lim k then Inr (key_text k) else Inl ValueError)"
  using assms
  by (cases "(lim, k)" rule: dict_key.cases) (auto simp: key_text_def intstr_fits int_fits_def)

lemma norm_PDict: "norm (PDict kvs) = PDict (dict_of (map norm_pair kvs))"
  by (simp add: norm_pair_def)

lemma rt_list_Cons:
  assumes v: "rt lim v" and vs: "rest_ok lim vs" "list_all plain vs" "list_all (fits lim) vs"
  shows "rt lim (PList (v # vs))" "rt lim (PTuple (v # vs))"
proof -
  from v have ev: "snd (iterencode lim v) = None" by (simp add: rt_def)
  note g = glued_ok [OF ev]
  from vs have er: "snd (iterencode_rest lim vs) = None"
    and al: "\<And>rest. array_loop lim (text_of lim v @ concat (fst (iterencode_rest lim vs)) @ 0x5D # rest) =
             Inr (norm v # map norm vs, rest)"
    using v by (simp_all add: rest_ok_def)
  have t: "text_of lim (PList (v # vs)) = 0x5B # text_of lim v @ concat (fst (iterencode_rest lim vs)) @ [0x5D]"
    "text_of lim (PTuple (v # vs)) = 0x5B # text_of lim v @ concat (fst (iterencode_rest lim vs)) @ [0x5D]"
    by (simp_all add: text_of_def [of lim "PList _"] text_of_def [of lim "PTuple _"]
        andthen_ok yield_simps g er) (simp_all add: asc_def)
  have s: "snd (iterencode lim (PList (v # vs))) = None" "snd (iterencode lim (PTuple (v # vs))) = None"
    by (simp_all add: andthen_ok yield_simps g er)
  have sc: "\<And>rest. scan_once lim (0x5B # text_of lim v @ concat (fst (iterencode_rest lim vs)) @ 0x5D # rest) =
              Inr (PList (norm v # map norm vs), rest)"
    by (rule scan_once_array [OF v al])
  show "rt lim (PList (v # vs))"
    unfolding rt_def using s(1) sc by (simp add: t is_ws_def)
  show "rt lim (PTuple (v # vs))"
    unfolding rt_def using s(2) sc by (simp add: t is_ws_def)
qed

lemma rt_dict_Cons:
  assumes p: "pair_ok lim True k v" "plain_key k" "plain v" "fits lim k" "fits lim v"
    and kvs: "pairs_ok lim kvs" "list_all (\<lambda>(k, v). plain_key k \<and> plain v) kvs"
      "list_all (\<lambda>(k, v). fits lim k \<and> fits lim v) kvs"
  shows "rt lim (PDict ((k, v) # kvs))"
proof -
  from p have v: "rt lim v" and ep: "snd (iterencode_pair lim True k v) = None"
    and tp: "concat (fst (iterencode_pair lim True k v)) =
          0x22 # concat (map escape_char (key_text k)) @ 0x22 # 0x3A # 0x20 # text_of lim v"
    by (simp_all add: pair_ok_def)
  note ks = plain_key_valid [OF p(2)]
  from kvs have er: "snd (iterencode_pairs lim kvs) = None"
    and ol: "\<And>rest. object_loop lim (concat (map escape_char (key_text k)) @ 0x22 # 0x3A # 0x20 # text_of lim v @
                        concat (fst (iterencode_pairs lim kvs)) @ 0x7D # rest) =
             Inr ((PStr (join_surrogates (key_text k)), norm v) # map norm_pair kvs, rest)"
    using v ks by (simp_all add: pairs_ok_def)
  have t: "text_of lim (PDict ((k, v) # kvs)) =
      0x7B # 0x22 # concat (map escape_char (key_text k)) @ 0x22 # 0x3A # 0x20 # text_of lim v @
        concat (fst (iterencode_pairs lim kvs)) @ [0x7D]"
    by (simp add: text_of_def [of lim "PDict _"] andthen_ok yield_simps ep er tp asc_def
        del: iterencode_pair.simps)
  have s: "snd (iterencode lim (PDict ((k, v) # kvs))) = None"
    by (simp add: andthen_ok yield_simps ep er del: iterencode_pair.simps)
  have sc: "\<And>rest. scan_once lim (0x7B # 0x22 # concat (map escape_char (key_text k)) @ 0x22 # 0x3A # 0x20 # text_of lim v @
                        concat (fst (iterencode_pairs lim kvs)) @ 0x7D # rest) =
              Inr (PDict (dict_of ((PStr (join_surrogates (key_text k)), norm v) # map norm_pair kvs)), rest)"
    by (rule scan_once_object [OF ol])
  show ?thesis
    unfolding rt_def using s sc by (simp add: t is_ws_def norm_PDict norm_pair_def del: norm.simps)
qed

lemma rt_empty: "rt lim (PList [])" "rt lim (PTuple [])" "rt lim (PDict [])"
  by (simp_all add: rt_def text_of_def yield_def asc_def is_ws_def
      scan_once.simps [of lim "0x5B # _"] scan_once.simps [of lim "0x7B # _"] skip_ws_nonws dict_of_def)

lemma rest_ok_Nil: "rest_ok lim []"
  by (simp add: rest_ok_def nothing_simps array_loop_last)

lemma rest_ok_Cons:
  assumes "plain v \<and> fits lim v \<longrightarrow> rt lim v" "rest_ok lim vs"
  shows "rest_ok lim (v # vs)"
  unfolding rest_ok_def
proof (intro impI conjI allI)
  assume pl: "list_all plain (v # vs) \<and> list_all (fits lim) (v # vs)"
  with assms have v: "rt lim v" and ev: "snd (iterencode lim v) = None"
    and er: "snd (iterencode_rest lim vs) = None"
    and al: "\<And>v0 rest. rt lim v0 \<Longrightarrow> array_loop lim (text_of lim v0 @ concat (fst (iterencode_rest lim vs)) @ 0x5D # rest) =
             Inr (norm v0 # map norm vs, rest)"
    by (simp_all add: rest_ok_def rt_def)
  note g = glued_ok [OF ev]
  show "snd (iterencode_rest lim (v # vs)) = None"
    by (simp add: andthen_ok g er)
  fix v0 rest assume v0: "rt lim v0"
  have t: "concat (fst (iterencode_rest lim (v # vs))) = 0x2C # 0x20 # text_of lim v @ concat (fst (iterencode_rest lim vs))"
    by (simp add: andthen_ok g er) (simp add: asc_def)
  show "array_loop lim (text_of lim v0 @ concat (fst (iterencode_rest lim (v # vs))) @ 0x5D # rest) =
          Inr (norm v0 # map norm (v # vs), rest)"
    unfolding t using array_loop_more [OF v0 v al [OF v]] by simp
qed

lemma pair_ok_I:
  assumes "\<And>b. dict_key lim k = Inr b \<Longrightarrow> plain v \<and> fits lim v \<longrightarrow> rt lim v"
  shows "pair_ok lim first k v"
  unfolding pair_ok_def
proof (intro impI)
  assume "plain_key k \<and> plain v \<and> fits lim k \<and> fits lim v"
  then have k: "plain_key k" and pv: "plain v" and fk: "fits lim k" and fv: "fits lim v" by simp_all
  have dk: "dict_key lim k = Inr (key_text k)" by (simp add: plain_dict_key [OF k] fk)
  from assms [OF dk] pv fv have v: "rt lim v" by simp
  then have ev: "snd (iterencode lim v) = None" by (simp add: rt_def)
  have a: "snd (iterencode_pair lim first k v) = None"
    by (simp add: dk andthen_ok yield_simps nothing_simps ev)
  have b: "concat (fst (iterencode_pair lim first k v)) =
          (if first then [] else [0x2C, 0x20]) @
          0x22 # concat (map escape_char (key_text k)) @ 0x22 # 0x3A # 0x20 # text_of lim v"
    by (simp add: dk andthen_ok yield_simps nothing_simps ev asc_def text_of_def
        encode_basestring_ascii_def)
  from v a b show "rt lim v \<and> snd (iterencode_pair lim first k v) = None \<and>
        concat (fst (iterencode_pair lim first k v)) =
          (if first then [] else [0x2C, 0x20]) @
          0x22 # concat (map escape_char (key_text k)) @ 0x22 # 0x3A # 0x20 # text_of lim v"
    by blast
qed

lemma pairs_ok_Nil: "pairs_ok lim []"
  by (simp add: pairs_ok_def nothing_simps object_loop_last)

lemma pairs_ok_Cons:
  assumes "pair_ok lim False k v" "pairs_ok lim kvs"
  shows "pairs_ok lim ((k, v) # kvs)"
  unfolding pairs_ok_def
proof (intro impI conjI allI)
  assume pl: "list_all (\<lambda>(k, v). plain_key k \<and> plain v) ((k, v) # kvs) \<and>
    list_all (\<lambda>(k, v). fits lim k \<and> fits lim v) ((k, v) # kvs)"
  then have k: "plain_key k" and pv: "plain v" and fk: "fits lim k" and fv: "fits lim v" by simp_all
  from assms(1) k pv fk fv have v: "rt lim v" and ep: "snd (iterencode_pair lim False k v) = None"
    and tp: "concat (fst (iterencode_pair lim False k v)) =
          0x2C # 0x20 # 0x22 # concat (map escape_char (key_text k)) @ 0x22 # 0x3A # 0x20 # text_of lim v"
    by (simp_all add: pair_ok_def)
  note ks = plain_key_valid [OF k]
  from assms(2) pl have er: "snd (iterencode_pairs lim kvs) = None"
    and ol: "\<And>ks v0 rest. valid_str ks \<Longrightarrow> rt lim v0 \<Longrightarrow>
           object_loop lim (concat (map escape_char ks) @ 0x22 # 0x3A # 0x20 # text_of lim v0 @
                        concat (fst (iterencode_pairs lim kvs)) @ 0x7D # rest) =
             Inr ((PStr (join_surrogates ks), norm v0) # map norm_pair kvs, rest)"
    by (simp_all add: pairs_ok_def)
  show "snd (iterencode_pairs lim ((k, v) # kvs)) = None"
    by (simp add: andthen_ok ep er del: iterencode_pair.simps)
  fix ks0 v0 rest assume ks0: "valid_str ks0" and v0: "rt lim v0"
  have t: "concat (fst (iterencode_pairs lim ((k, v) # kvs))) =
      0x2C # 0x20 # 0x22 # concat (map escape_char (key_text k)) @ 0x22 # 0x3A # 0x20 # text_of lim v @
        concat (fst (iterencode_pairs lim kvs))"
    by (simp add: andthen_ok ep er tp del: iterencode_pair.simps)
  show "object_loop lim (concat (map escape_char ks0) @ 0x22 # 0x3A # 0x20 # text_of lim v0 @
                        concat (fst (iterencode_pairs lim ((k, v) # kvs))) @ 0x7D # rest) =
             Inr ((PStr (join_surrogates ks0), norm v0) # map norm_pair ((k, v) # kvs), rest)"
    unfolding t using object_loop_more [OF ks0 v0 ol [OF ks v]] by (simp add: norm_pair_def)
qed

lemma plain_round_trips:
  "plain v \<and> fits lim v \<longrightarrow> rt lim v"
  "rest_ok lim vs"
  "pair_ok lim first k v1"
  "pairs_ok lim kvs"
proof (induction lim v and lim vs and lim first k v1 and lim kvs
    rule: iterencode_iterencode_rest_iterencode_pair_iterencode_pairs.induct)
  case (1 lim s)
  show ?case by (simp add: rt_str)
next
  case (2 lim)
  show ?case by (simp add: rt_none)
next
  case (3 lim b)
  show ?case by (simp add: rt_bool)
next
  case (4 lim i)
  show ?case by (simp add: rt_int)
next
  case (5 lim t)
  show ?case by simp
next
  case (6 lim)
  show ?case by (simp add: rt_empty)
next
  case (7 lim v vs)
  then show ?case by (auto intro: rt_list_Cons(1))
next
  case (8 lim)
  show ?case by (simp add: rt_empty)
next
  case (9 lim v vs)
  then show ?case by (auto intro: rt_list_Cons(2))
next
  case (10 lim)
  show ?case by (simp add: rt_empty)
next
  case (11 lim k v kvs)
  then show ?case by (auto intro: rt_dict_Cons)
next
  case (12 lim n)
  show ?case by simp
next
  case (13 lim)
  show ?case by (rule rest_ok_Nil)
next
  case (14 lim v vs)
  then show ?case by (rule rest_ok_Cons)
next
  case (15 lim first k v)
  then show ?case by (rule pair_ok_I)
next
  case (16 lim)
  show ?case by (rule pairs_ok_Nil)
next
  case (17 lim k v kvs)
  then show ?case by (rule pairs_ok_Cons)
qed

text \<open>
  Encoding a plain value raises nothing when every int fits the limit, and \<open>ValueError\<close>
  otherwise.
\<close>
lemma encoder_outcome:
  "plain v \<longrightarrow> snd (iterencode lim v) = (if fits lim v then None else Some ValueError)"
  "list_all plain vs \<longrightarrow>
     snd (iterencode_rest lim vs) = (if list_all (fits lim) vs then None else Some ValueError)"
  "plain_key k \<and> plain v1 \<longrightarrow>
     snd (iterencode_pair lim first k v1) = (if fits lim k \<and> fits lim v1 then None else Some ValueError)"
  "list_all (\<lambda>(k, v). plain_key k \<and> plain v) kvs \<longrightarrow>
     snd (iterencode_pairs lim kvs) =
       (if list_all (\<lambda>(k, v). fits lim k \<and> fits lim v) kvs then None else Some ValueError)"
proof (induction lim v and lim vs and lim first k v1 and lim kvs
    rule: iterencode_iterencode_rest_iterencode_pair_iterencode_pairs.induct)
  case (4 lim i)
  show ?case by (simp add: intstr_fits raise_simps yield_simps)
next
  case (7 lim v vs)
  then show ?case by (simp add: snd_andthen snd_glued yield_simps)
next
  case (9 lim v vs)
  then show ?case by (simp add: snd_andthen snd_glued yield_simps)
next
  case (11 lim k v kvs)
  then show ?case by (simp add: snd_andthen yield_simps del: iterencode_pair.simps)
next
  case (14 lim v vs)
  then show ?case by (simp add: snd_andthen snd_glued)
next
  case (15 lim first k v)
  show ?case
  proof (intro impI)
    assume a: "plain_key k \<and> plain v"
    show "snd (iterencode_pair lim first k v) = (if fits lim k \<and> fits lim v then None else Some ValueError)"
    proof (cases "fits lim k")
      case True
      with a have dk: "dict_key lim k = Inr (key_text k)" by (simp add: plain_dict_key)
      from "15.IH" [OF dk] a True show ?thesis
        by (simp add: dk snd_andthen yield_simps nothing_simps)
    next
      case False
      with a have "dict_key lim k = Inl ValueError" by (simp add: plain_dict_key)
      with False show ?thesis by (simp add: raise_simps)
    qed
  qed
next
  case (17 lim k v kvs)
  then show ?case by (simp add: snd_andthen del: iterencode_pair.simps)
qed (simp_all add: yield_simps nothing_simps)

theorem loads_dumps:
  assumes "plain v" "fits lim v"
  shows "snd (iterencode lim v) = None" "json_loads lim (text_of lim v) = Inr (norm v)"
proof -
  from assms plain_round_trips(1) [of v lim] have v: "rt lim v" by simp
  then show "snd (iterencode lim v) = None" by (simp add: rt_def)
  from rtD_head [OF v] obtain c t where ct: "text_of lim v = c # t" "\<not> is_ws c" "c \<noteq> 0xFEFF"
    by blast
  have "scan_once lim (text_of lim v) = Inr (norm v, [])"
    using rtD_scan [OF v number_end_simps(1)] by simp
  with ct show "json_loads lim (text_of lim v) = Inr (norm v)"
    by (simp add: json_loads_def starts_with_def skip_ws_nonws skip_ws_Nil)
qed

section \<open>\<open>save\<close> and \<open>fetch\<close> on the world\<close>

lemma write_chunks_frame:
  "read_denied (snd (write_chunks cs e f w)) = read_denied w"
  "write_denied (snd (write_chunks cs e f w)) = write_denied w"
  "disk_full (snd (write_chunks cs e f w)) = disk_full w"
  "handles (snd (write_chunks cs e f w)) = handles w"
  "stdout (snd (write_chunks cs e f w)) = stdout w"
  "int_max_str_digits (snd (write_chunks cs e f w)) = int_max_str_digits w"
  "p \<noteq> f \<Longrightarrow> files (snd (write_chunks cs e f w)) p = files w p"
  by (induction cs e f w rule: write_chunks.induct; simp add: write_file_def split: sum.splits if_splits)+

lemma write_chunks_ok:
  assumes "\<not> disk_full w" "files w f = Some (Text t)"
  shows "write_chunks cs e f w = (outcome e, w\<lparr>files := (files w)(f \<mapsto> Text (t @ concat cs))\<rparr>)"
  using assms
proof (induction cs arbitrary: w t)
  case Nil
  then have eq: "w\<lparr>files := (files w)(f \<mapsto> Text t)\<rparr> = w"
    by (simp add: fun_upd_idem)
  have r: "write_chunks [] e f w = (outcome e, w)"
    by (cases e) (simp_all add: outcome_def)
  show ?case by (simp only: r concat.simps append_Nil2 eq)
next
  case (Cons c cs)
  let ?w' = "w\<lparr>files := (files w)(f \<mapsto> Text (t @ c))\<rparr>"
  have w: "write_file f c w = Inr ?w'" using Cons.prems by (simp add: write_file_def)
  have step: "write_chunks (c # cs) e f w = write_chunks cs e f ?w'"
    by (simp add: w)
  have ih: "write_chunks cs e f ?w' = (outcome e, ?w'\<lparr>files := (files ?w')(f \<mapsto> Text ((t @ c) @ concat cs))\<rparr>)"
    using Cons.prems by (intro Cons.IH) simp_all
  have upd: "?w'\<lparr>files := (files ?w')(f \<mapsto> Text ((t @ c) @ concat cs))\<rparr> =
      w\<lparr>files := (files w)(f \<mapsto> Text (t @ concat (c # cs)))\<rparr>"
    by simp
  show ?case by (simp only: step ih upd)
qed

lemma write_chunks_full:
  assumes "disk_full w" "concat cs \<noteq> []"
  shows "fst (write_chunks cs e f w) = Inl NoSpaceError"
  using assms
proof (induction cs arbitrary: w)
  case Nil
  then show ?case by simp
next
  case (Cons c cs)
  show ?case
  proof (cases "c = []")
    case True
    with Cons.prems have "concat cs \<noteq> []" by simp
    with Cons.IH Cons.prems(1) True show ?thesis by (simp add: write_file_def)
  next
    case False
    with Cons.prems(1) show ?thesis by (simp add: write_file_def)
  qed
qed

lemma write_chunks_empty:
  assumes "concat cs = []" "files w f = Some (Text t)"
  shows "write_chunks cs e f w = (outcome e, w)"
  using assms
proof (induction cs arbitrary: w)
  case Nil
  then show ?case by (cases e) (simp_all add: outcome_def)
next
  case (Cons c cs)
  then have c: "c = []" and cs: "concat cs = []" by simp_all
  have eq: "w\<lparr>files := (files w)(f \<mapsto> Text t)\<rparr> = w"
    using Cons.prems(2) by (simp add: fun_upd_idem)
  from Cons.IH [OF cs Cons.prems(2)] Cons.prems(2) show ?case
    by (simp add: write_file_def c eq)
qed

lemma save_unfold:
  assumes "file_name \<notin> write_denied w"
  shows "save v w =
     (fst (write_chunks (fst (iterencode (int_max_str_digits w) v)) (snd (iterencode (int_max_str_digits w) v)) file_name
            (w\<lparr>files := (files w)(file_name \<mapsto> Text []), handles := file_name # handles w\<rparr>)),
      close_file file_name
        (snd (write_chunks (fst (iterencode (int_max_str_digits w) v)) (snd (iterencode (int_max_str_digits w) v)) file_name
            (w\<lparr>files := (files w)(file_name \<mapsto> Text []), handles := file_name # handles w\<rparr>))))"
  using assms
  by (simp add: save_def with_open_def open_file_def json_dump_def case_prod_beta)

lemma save_denied: "file_name \<in> write_denied w \<Longrightarrow> save v w = (Inl PermissionError, w)"
  by (simp add: save_def with_open_def open_file_def)

lemma world_handles_id: "w\<lparr>handles := handles w\<rparr> = w"
  by simp

lemma save_ok:
  assumes "file_name \<notin> write_denied w" "\<not> disk_full w"
  shows "save v w = (outcome (snd (iterencode (int_max_str_digits w) v)), w\<lparr>files := (files w)(file_name \<mapsto> Text (text_of (int_max_str_digits w) v))\<rparr>)"
proof -
  let ?w1 = "w\<lparr>files := (files w)(file_name \<mapsto> Text []), handles := file_name # handles w\<rparr>"
  have "write_chunks (fst (iterencode (int_max_str_digits w) v)) (snd (iterencode (int_max_str_digits w) v)) file_name ?w1 =
      (outcome (snd (iterencode (int_max_str_digits w) v)), ?w1\<lparr>files := (files ?w1)(file_name \<mapsto> Text ([] @ text_of (int_max_str_digits w) v))\<rparr>)"
    unfolding text_of_def using assms(2) by (intro write_chunks_ok) simp_all
  then show ?thesis
    by (simp add: save_unfold [OF assms(1)] close_file_def)
qed

lemma save_full:
  assumes "file_name \<notin> write_denied w" "disk_full w" "text_of (int_max_str_digits w) v \<noteq> []"
  shows "fst (save v w) = Inl NoSpaceError"
proof -
  let ?w1 = "w\<lparr>files := (files w)(file_name \<mapsto> Text []), handles := file_name # handles w\<rparr>"
  have "fst (write_chunks (fst (iterencode (int_max_str_digits w) v)) (snd (iterencode (int_max_str_digits w) v)) file_name ?w1) = Inl NoSpaceError"
    using assms(2,3) unfolding text_of_def by (intro write_chunks_full) simp_all
  then show ?thesis
    by (simp add: save_unfold [OF assms(1)])
qed

lemma save_full_empty:
  assumes "file_name \<notin> write_denied w" "text_of (int_max_str_digits w) v = []"
  shows "fst (save v w) = outcome (snd (iterencode (int_max_str_digits w) v))"
proof -
  let ?w1 = "w\<lparr>files := (files w)(file_name \<mapsto> Text []), handles := file_name # handles w\<rparr>"
  have "write_chunks (fst (iterencode (int_max_str_digits w) v)) (snd (iterencode (int_max_str_digits w) v)) file_name ?w1 =
      (outcome (snd (iterencode (int_max_str_digits w) v)), ?w1)"
    using assms(2) unfolding text_of_def by (intro write_chunks_empty [where t = "[]"]) simp_all
  then show ?thesis
    by (simp add: save_unfold [OF assms(1)])
qed

lemma save_frame:
  "read_denied (snd (save v w)) = read_denied w"
  "write_denied (snd (save v w)) = write_denied w"
  "disk_full (snd (save v w)) = disk_full w"
  "handles (snd (save v w)) = handles w"
  "stdout (snd (save v w)) = stdout w"
  "int_max_str_digits (snd (save v w)) = int_max_str_digits w"
  "p \<noteq> file_name \<Longrightarrow> files (snd (save v w)) p = files w p"
  by (cases "file_name \<in> write_denied w";
      simp add: save_denied save_unfold close_file_def write_chunks_frame)+

lemma fetch_cases:
  "files w file_name = None \<Longrightarrow> fetch w = (PList [], print FileNotFoundError w)"
  "files w file_name = Some d \<Longrightarrow> file_name \<in> read_denied w \<Longrightarrow> fetch w = (PList [], print PermissionError w)"
  "files w file_name = Some Undecodable \<Longrightarrow> file_name \<notin> read_denied w \<Longrightarrow>
     fetch w = (PList [], print UnicodeDecodeError w)"
  "files w file_name = Some (Text t) \<Longrightarrow> file_name \<notin> read_denied w \<Longrightarrow> json_loads (int_max_str_digits w) t = Inl e \<Longrightarrow>
     fetch w = (PList [], print e w)"
  "files w file_name = Some (Text t) \<Longrightarrow> file_name \<notin> read_denied w \<Longrightarrow> json_loads (int_max_str_digits w) t = Inr v \<Longrightarrow>
     fetch w = (v, w)"
  by (simp_all add: fetch_def with_open_def open_file_def json_load_def read_file_def close_file_def)

section \<open>Properties of the store\<close>

lemma join_length: "length (join_surrogates s) \<le> length s"
  by (induction s rule: join_surrogates.induct) auto

lemma join_id_iff: "join_surrogates s = s \<longleftrightarrow> \<not> has_pair s"
proof (induction s rule: join_surrogates.induct)
  case (1 c d s)
  show ?case
  proof (cases "0xD800 \<le> c \<and> c \<le> 0xDBFF \<and> 0xDC00 \<le> d \<and> d \<le> 0xDFFF")
    case True
    have "length (join_surrogates s) < length (d # s)"
      using join_length [of s] by simp
    then have "join_surrogates s \<noteq> d # s" by auto
    with True show ?thesis by simp
  next
    case False
    with 1 show ?thesis by auto
  qed
qed simp_all

lemma plain_item: "valid_task t \<Longrightarrow> plain (item t)"
  by (simp add: item_def valid_task_def valid_str_def asc_def)

lemma plain_todo: "list_all valid_task ts \<Longrightarrow> plain (todo ts)"
  by (simp add: todo_def list_all_iff plain_item)

lemma norm_item: "norm (item t) = item (norm_task t)"
  by (simp add: item_def norm_task_def key_text_def asc_def dict_of_def)

lemma norm_todo: "norm (todo ts) = todo (map norm_task ts)"
  by (simp add: todo_def norm_item)

lemma item_inj: "item t = item t' \<longleftrightarrow> t = t'"
  by (cases t, cases t') (auto simp: item_def)

lemma todo_inj: "todo ts = todo ts' \<longleftrightarrow> ts = ts'"
proof -
  have "inj item" by (rule injI) (simp add: item_inj)
  then show ?thesis by (simp add: todo_def inj_map_eq_map)
qed

lemma norm_task_id_iff: "norm_task t = t \<longleftrightarrow> pair_free t"
  by (cases t) (auto simp: norm_task_def pair_free_def join_id_iff)

lemma norm_tasks_id_iff: "map norm_task ts = ts \<longleftrightarrow> list_all pair_free ts"
  by (induction ts) (simp_all add: norm_task_id_iff)

lemma fits_item: "fits lim (item t) \<longleftrightarrow> id_fits lim t"
  by (simp add: item_def id_fits_def)

lemma fits_todo: "fits lim (todo ts) \<longleftrightarrow> list_all (id_fits lim) ts"
  by (simp add: todo_def list_all_iff fits_item)

lemma milk_fits: "list_all (id_fits lim) [milk]"
  by (simp add: id_fits_def milk_def small_int_fits)

lemma save_fetch_norm:
  assumes "file_name \<notin> write_denied w" "\<not> disk_full w" "file_name \<notin> read_denied w"
    and "plain v" "fits (int_max_str_digits w) v"
  shows "save v w = (Inr (), w\<lparr>files := (files w)(file_name \<mapsto> Text (text_of (int_max_str_digits w) v))\<rparr>)"
    and "fetch (snd (save v w)) = (norm v, snd (save v w))"
proof -
  from loads_dumps [OF assms(4,5)] have e: "snd (iterencode (int_max_str_digits w) v) = None"
    and l: "json_loads (int_max_str_digits w) (text_of (int_max_str_digits w) v) = Inr (norm v)"
    by simp_all
  show s: "save v w = (Inr (), w\<lparr>files := (files w)(file_name \<mapsto> Text (text_of (int_max_str_digits w) v))\<rparr>)"
    by (simp add: save_ok [OF assms(1,2)] e outcome_def)
  show "fetch (snd (save v w)) = (norm v, snd (save v w))"
    unfolding s using assms(3) l by (intro fetch_cases(5)) simp_all
qed

lemma save_unfit:
  assumes "file_name \<notin> write_denied w" "\<not> disk_full w"
    and "plain v" "\<not> fits (int_max_str_digits w) v"
  shows "fst (save v w) = Inl ValueError"
  using encoder_outcome(1) [of v "int_max_str_digits w"] assms(3,4)
  by (simp add: save_ok [OF assms(1,2)] outcome_def)

lemma big_unfit: "\<not> id_fits 4300 big"
proof -
  have "\<not> int_fits 4300 (10 ^ 4300)" by (rule power_of_ten_unfit) simp_all
  then show ?thesis unfolding id_fits_def big_def task.select_convs .
qed

lemma big_valid: "valid_task big"
  by (simp only: valid_task_def big_def task.select_convs) (simp add: valid_str_def asc_def)

lemma text_of_big: "text_of 4300 (todo [big]) = asc ''[{'' @ 0x22 # asc ''id'' @ 0x22 # asc '': ''"
  using big_unfit
  by (simp add: text_of_def todo_def item_def id_fits_def intstr_fits glued_def
      andthen_def yield_def raise_def nothing_def encode_basestring_ascii_def escape_char_def asc_def)

lemma loads_cut_document:
  "json_loads lim (asc ''[{'' @ 0x22 # asc ''id'' @ 0x22 # asc '': '') = Inl (JSONDecodeError ExpectingValue)"
  by (simp add: json_loads_def starts_with_def skip_ws_def is_ws_def asc_def
      scan_once.simps [of lim "0x5B # _"] array_loop.simps [of lim "0x7B # _"]
      scan_once.simps [of lim "0x7B # _"] object_loop.simps [of lim "0x69 # _"]
      scan_once.simps [of lim "[]"]
      scanstring.simps [of "0x69 # _"] scanstring.simps [of "0x64 # _"] scanstring.simps [of "0x22 # _"]
      string_step_def)

lemma save_big:
  assumes "file_name \<notin> write_denied w" "\<not> disk_full w" "int_max_str_digits w = 4300"
  shows "fst (save (todo [big]) w) = Inl ValueError"
    and "fst (fetch (snd (save (todo [big]) w))) = PList []"
proof -
  have p: "plain (todo [big])" by (rule plain_todo) (simp add: big_valid)
  have u: "\<not> fits (int_max_str_digits w) (todo [big])"
    by (simp add: fits_todo assms(3) big_unfit)
  show "fst (save (todo [big]) w) = Inl ValueError"
    by (rule save_unfit [OF assms(1,2) p u])
  let ?w' = "snd (save (todo [big]) w)"
  have f: "files ?w' file_name = Some (Text (asc ''[{'' @ 0x22 # asc ''id'' @ 0x22 # asc '': ''))"
    by (simp add: save_ok [OF assms(1,2)] assms(3) text_of_big)
  have l: "json_loads (int_max_str_digits ?w') (asc ''[{'' @ 0x22 # asc ''id'' @ 0x22 # asc '': '') =
      Inl (JSONDecodeError ExpectingValue)"
    by (rule loads_cut_document)
  show "fst (fetch ?w') = PList []"
  proof (cases "file_name \<in> read_denied ?w'")
    case True
    then show ?thesis by (simp add: fetch_cases(2) [OF f])
  next
    case False
    then show ?thesis by (simp add: fetch_cases(4) [OF f _ l])
  qed
qed




lemma plain_text_nonempty: "plain v \<Longrightarrow> fits lim v \<Longrightarrow> text_of lim v \<noteq> []"
  using plain_round_trips(1) [of v lim] by (auto dest: rtD_head)

lemma concat_andthen_nonempty: "concat (fst a) \<noteq> [] \<Longrightarrow> concat (fst (andthen a b)) \<noteq> []"
  by (auto simp: andthen_def split: option.splits)

lemma scalar_item: "scalar lim (item t) = None"
  by (simp add: item_def)

lemma todo_text_nonempty: "text_of lim (todo ts) \<noteq> []"
proof (cases ts)
  case Nil
  then show ?thesis by (simp add: text_of_def todo_def yield_def asc_def)
next
  case (Cons a list)
  have "concat (fst (yield (asc ''[''))) \<noteq> []" by (simp add: yield_def asc_def)
  then have "concat (fst (andthen (andthen (yield (asc ''['')) (iterencode lim (item a)))
      (andthen (iterencode_rest lim (map item list)) (yield (asc '']''))))) \<noteq> []"
    by (intro concat_andthen_nonempty)
  then show ?thesis by (simp add: Cons text_of_def todo_def scalar_item glued_def)
qed

lemma fetch_frame:
  "files (snd (fetch w)) = files w"
  "read_denied (snd (fetch w)) = read_denied w"
  "write_denied (snd (fetch w)) = write_denied w"
  "disk_full (snd (fetch w)) = disk_full w"
  "handles (snd (fetch w)) = handles w"
  "int_max_str_digits (snd (fetch w)) = int_max_str_digits w"
  by (simp_all add: fetch_def with_open_def open_file_def json_load_def read_file_def
      close_file_def print_def split: option.splits fdata.splits sum.splits)

lemma save_result:
  "fst (save v w) =
     (if file_name \<in> write_denied w then Inl PermissionError
      else if disk_full w \<and> text_of (int_max_str_digits w) v \<noteq> [] then Inl NoSpaceError
      else outcome (snd (iterencode (int_max_str_digits w) v)))"
proof (cases "file_name \<in> write_denied w")
  case True
  then show ?thesis by (simp add: save_denied)
next
  case open_ok: False
  show ?thesis
  proof (cases "disk_full w")
    case False
    with open_ok show ?thesis by (simp add: save_ok)
  next
    case True
    with open_ok show ?thesis
      by (cases "text_of (int_max_str_digits w) v = []") (simp_all add: save_full save_full_empty)
  qed
qed

lemma save_todo_success:
  assumes "list_all valid_task ts" "fst (save (todo ts) w) = Inr ()"
  shows "file_name \<notin> write_denied w" "\<not> disk_full w"
    "list_all (id_fits (int_max_str_digits w)) ts"
proof -
  let ?lim = "int_max_str_digits w"
  note p = plain_todo [OF assms(1)]
  from assms(2) show d: "file_name \<notin> write_denied w"
    by (auto simp: save_result split: if_splits)
  show f: "list_all (id_fits ?lim) ts"
  proof (rule ccontr)
    assume "\<not> list_all (id_fits ?lim) ts"
    then have u: "\<not> fits ?lim (todo ts)" by (simp add: fits_todo)
    have e: "snd (iterencode ?lim (todo ts)) = Some ValueError"
      using encoder_outcome(1) [of "todo ts" ?lim] p u by simp
    note t = todo_text_nonempty [of ?lim ts]
    from assms(2) d e t show False
      by (auto simp: save_result outcome_def split: if_splits)
  qed
  then have "fits ?lim (todo ts)" by (simp add: fits_todo)
  note ne = plain_text_nonempty [OF p this]
  from assms(2) ne show "\<not> disk_full w"
    by (auto simp: save_result split: if_splits)
qed

lemma loads_empty_object: "json_loads lim (asc ''{}'') = Inr (PDict [])"
  by (simp add: json_loads_def starts_with_def skip_ws_def is_ws_def asc_def
      scan_once.simps [of lim "0x7B # _"])

lemma loads_broken_object: "json_loads lim (asc ''{broken'') = Inl (JSONDecodeError ExpectingPropertyName)"
  by (simp add: json_loads_def starts_with_def skip_ws_def is_ws_def asc_def
      scan_once.simps [of lim "0x7B # _"])

lemma loads_open_bracket: "json_loads lim (asc ''['') = Inl (JSONDecodeError ExpectingValue)"
  by (simp add: json_loads_def starts_with_def skip_ws_def is_ws_def asc_def
      scan_once.simps [of lim "0x5B # _"])

lemma text_of_unserializable:
  "iterencode lim (PList [PObject n]) = ([asc ''[''], Some TypeError)"
  by (simp add: glued_def yield_def raise_def andthen_def)

text \<open>
  C3. Without a backing file (no \<open>save\<close> has happened), \<open>fetch\<close> returns the empty list; it
  returns a value, so no fault reaches the caller. The file is not created, and the
  exception is printed.
\<close>
theorem fetch_without_file:
  assumes "files w file_name = None"
  shows "fst (fetch w) = PList [] \<and>
         files (snd (fetch w)) = files w \<and>
         stdout (snd (fetch w)) = stdout w @ [FileNotFoundError]"
  by (simp add: fetch_cases(1) [OF assms] print_def)

theorem fetch_without_file_witness:
  "files empty_world file_name = None \<and> fst (fetch empty_world) = PList []"
proof -
  have h: "files empty_world file_name = None" by (simp add: empty_world_def)
  from fetch_without_file [OF h] h show ?thesis by blast
qed

text \<open>
  C4. When the backing file holds text that the JSON decoder rejects, \<open>fetch\<close> returns the
  empty list (a value, not the parse fault); if the file could be opened, the decoder's
  exception is what is printed.
\<close>
theorem fetch_corrupt_file:
  assumes "files w file_name = Some (Text t)" "json_loads (int_max_str_digits w) t = Inl e"
  shows "fst (fetch w) = PList [] \<and>
         (file_name \<notin> read_denied w \<longrightarrow> stdout (snd (fetch w)) = stdout w @ [e])"
proof (cases "file_name \<in> read_denied w")
  case True
  then show ?thesis by (simp add: fetch_cases(2) [OF assms(1)])
next
  case False
  then show ?thesis by (simp add: fetch_cases(4) [OF assms(1) _ assms(2)] print_def)
qed

theorem fetch_corrupt_file_witness:
  "json_loads (int_max_str_digits empty_world) (asc ''{broken'') = Inl (JSONDecodeError ExpectingPropertyName) \<and>
   fst (fetch (empty_world\<lparr>files := [file_name \<mapsto> Text (asc ''{broken'')]\<rparr>)) = PList [] \<and>
   stdout (snd (fetch (empty_world\<lparr>files := [file_name \<mapsto> Text (asc ''{broken'')]\<rparr>))) =
     [JSONDecodeError ExpectingPropertyName]"
proof -
  let ?w = "empty_world\<lparr>files := [file_name \<mapsto> Text (asc ''{broken'')]\<rparr>"
  have f: "files ?w file_name = Some (Text (asc ''{broken''))" by simp
  have r: "file_name \<notin> read_denied ?w" "stdout ?w = []" by (simp_all add: empty_world_def)
  have l: "json_loads (int_max_str_digits ?w) (asc ''{broken'') = Inl (JSONDecodeError ExpectingPropertyName)"
    by (rule loads_broken_object)
  from fetch_corrupt_file [OF f l] r loads_broken_object [of "int_max_str_digits empty_world"]
  show ?thesis by simp
qed

text \<open>
  C10. \<open>fetch\<close> leaves every file as it was, whether it returns the parsed value or falls
  back to the empty list: the file table after the call is the one before it (the file is
  opened in mode \<open>'r'\<close>). Permissions, free space, the open handles and the interpreter's
  digit limit are unchanged as well; only standard output may grow.
\<close>
theorem fetch_modifies_no_file:
  "files (snd (fetch w)) = files w \<and>
   read_denied (snd (fetch w)) = read_denied w \<and>
   write_denied (snd (fetch w)) = write_denied w \<and>
   disk_full (snd (fetch w)) = disk_full w \<and>
   handles (snd (fetch w)) = handles w \<and>
   int_max_str_digits (snd (fetch w)) = int_max_str_digits w"
  by (simp add: fetch_frame)

text \<open>
  C8. On every way out of \<open>save\<close> (\<open>open\<close> raised, so no handle was acquired; the dump ran
  to its end; the dump raised) the open handles are those from before the call: the handle
  acquired for writing has been released.
\<close>
theorem save_releases_handle:
  "handles (snd (save v w)) = handles w"
  by (rule save_frame(4))

text \<open>
  C6. \<open>save\<close> handles no exception: its result is the exception of the first step that
  fails (\<open>open\<close> denied, a write on a full disk, the encoder at an object it cannot
  serialize or at an int longer than the interpreter's digit limit), and it returns normally
  only when no step fails.
\<close>
theorem save_propagates_failures:
  "fst (save v w) =
     (if file_name \<in> write_denied w then Inl PermissionError
      else if disk_full w \<and> text_of (int_max_str_digits w) v \<noteq> [] then Inl NoSpaceError
      else (case snd (iterencode (int_max_str_digits w) v) of Some e \<Rightarrow> Inl e | None \<Rightarrow> Inr ()))"
  by (simp add: save_result outcome_def)

text \<open>
  C2. \<open>fetch\<close> masks every failure of opening, reading and parsing: a missing
  file, a file that may not be read, bytes that do not decode and text the JSON decoder
  rejects all give the empty list, with the exception printed. Text that parses is returned
  as parsed, whatever its shape, and nothing is printed: the shape of the value is not
  checked.
\<close>
theorem fetch_masks_failures:
  "(files w file_name = None \<longrightarrow> fetch w = (PList [], print FileNotFoundError w)) \<and>
   (files w file_name \<noteq> None \<and> file_name \<in> read_denied w \<longrightarrow>
      fetch w = (PList [], print PermissionError w)) \<and>
   (files w file_name = Some Undecodable \<and> file_name \<notin> read_denied w \<longrightarrow>
      fetch w = (PList [], print UnicodeDecodeError w)) \<and>
   (files w file_name = Some (Text t) \<and> file_name \<notin> read_denied w \<and>
      json_loads (int_max_str_digits w) t = Inl e \<longrightarrow>
      fetch w = (PList [], print e w)) \<and>
   (files w file_name = Some (Text t) \<and> file_name \<notin> read_denied w \<and>
      json_loads (int_max_str_digits w) t = Inr v \<longrightarrow>
      fetch w = (v, w))"
  by (auto simp: fetch_cases)

theorem fetch_masks_failures_witness:
  "fetch empty_world = (PList [], print FileNotFoundError empty_world) \<and>
   fetch (empty_world\<lparr>files := [file_name \<mapsto> Text (asc ''[]'')], read_denied := {file_name}\<rparr>) =
     (PList [], print PermissionError
        (empty_world\<lparr>files := [file_name \<mapsto> Text (asc ''[]'')], read_denied := {file_name}\<rparr>)) \<and>
   fetch (empty_world\<lparr>files := [file_name \<mapsto> Undecodable]\<rparr>) =
     (PList [], print UnicodeDecodeError (empty_world\<lparr>files := [file_name \<mapsto> Undecodable]\<rparr>)) \<and>
   fetch (empty_world\<lparr>files := [file_name \<mapsto> Text (asc ''{broken'')]\<rparr>) =
     (PList [], print (JSONDecodeError ExpectingPropertyName)
        (empty_world\<lparr>files := [file_name \<mapsto> Text (asc ''{broken'')]\<rparr>)) \<and>
   fetch (empty_world\<lparr>files := [file_name \<mapsto> Text (asc ''{}'')]\<rparr>) =
     (PDict [], empty_world\<lparr>files := [file_name \<mapsto> Text (asc ''{}'')]\<rparr>)"
proof -
  let ?w2 = "empty_world\<lparr>files := [file_name \<mapsto> Text (asc ''[]'')], read_denied := {file_name}\<rparr>"
  let ?w3 = "empty_world\<lparr>files := [file_name \<mapsto> Undecodable]\<rparr>"
  let ?w4 = "empty_world\<lparr>files := [file_name \<mapsto> Text (asc ''{broken'')]\<rparr>"
  let ?w5 = "empty_world\<lparr>files := [file_name \<mapsto> Text (asc ''{}'')]\<rparr>"
  have 1: "files empty_world file_name = None" by (simp add: empty_world_def)
  have 2: "files ?w2 file_name \<noteq> None \<and> file_name \<in> read_denied ?w2" by simp
  have 3: "files ?w3 file_name = Some Undecodable \<and> file_name \<notin> read_denied ?w3"
    by (simp add: empty_world_def)
  have 4: "files ?w4 file_name = Some (Text (asc ''{broken'')) \<and> file_name \<notin> read_denied ?w4 \<and>
      json_loads (int_max_str_digits ?w4) (asc ''{broken'') = Inl (JSONDecodeError ExpectingPropertyName)"
    by (simp add: empty_world_def loads_broken_object)
  have 5: "files ?w5 file_name = Some (Text (asc ''{}'')) \<and> file_name \<notin> read_denied ?w5 \<and>
      json_loads (int_max_str_digits ?w5) (asc ''{}'') = Inr (PDict [])"
    by (simp add: empty_world_def loads_empty_object)
  from fetch_masks_failures [of empty_world] 1
  have a: "fetch empty_world = (PList [], print FileNotFoundError empty_world)" by blast
  from fetch_masks_failures [of ?w2] 2
  have b: "fetch ?w2 = (PList [], print PermissionError ?w2)" by blast
  from fetch_masks_failures [of ?w3] 3
  have c: "fetch ?w3 = (PList [], print UnicodeDecodeError ?w3)" by blast
  from fetch_masks_failures [of ?w4 "asc ''{broken''" "JSONDecodeError ExpectingPropertyName"] 4
  have d: "fetch ?w4 = (PList [], print (JSONDecodeError ExpectingPropertyName) ?w4)" by blast
  from fetch_masks_failures [of ?w5 "asc ''{}''" _ "PDict []"] 5
  have e: "fetch ?w5 = (PDict [], ?w5)" by blast
  from a b c d e show ?thesis by blast
qed

theorem fetch_wrong_shape_counterexample:
  "fst (fetch (empty_world\<lparr>files := [file_name \<mapsto> Text (asc ''{}'')]\<rparr>)) = PDict [] \<and>
   stdout (snd (fetch (empty_world\<lparr>files := [file_name \<mapsto> Text (asc ''{}'')]\<rparr>))) = [] \<and>
   PDict [] \<noteq> PList []"
proof -
  let ?w = "empty_world\<lparr>files := [file_name \<mapsto> Text (asc ''{}'')]\<rparr>"
  have "fetch ?w = (PDict [], ?w)"
    by (rule fetch_cases(5) [OF _ _ loads_empty_object]) (simp_all add: empty_world_def)
  then show ?thesis by (simp add: empty_world_def)
qed

text \<open>
  C9. \<open>save\<close> is not atomic. A list that holds an object the encoder cannot serialize makes
  \<open>save\<close> raise \<open>TypeError\<close>, but the file was truncated when it was opened and the opening
  bracket has been written by then: whatever the file held before, it now holds \<open>[\<close> alone,
  and the following \<open>fetch\<close> returns the empty list.
\<close>
theorem save_not_atomic:
  assumes "file_name \<notin> write_denied w" "\<not> disk_full w"
  shows "save (PList [PObject n]) w =
           (Inl TypeError, w\<lparr>files := (files w)(file_name \<mapsto> Text (asc ''[''))\<rparr>) \<and>
         fst (fetch (snd (save (PList [PObject n]) w))) = PList []"
proof -
  let ?w' = "w\<lparr>files := (files w)(file_name \<mapsto> Text (asc ''[''))\<rparr>"
  have s: "save (PList [PObject n]) w = (Inl TypeError, ?w')"
    by (simp add: save_ok [OF assms] text_of_def text_of_unserializable outcome_def
        del: iterencode.simps)
  have f: "files ?w' file_name = Some (Text (asc ''[''))" by simp
  have "fst (fetch ?w') = PList []"
  proof (cases "file_name \<in> read_denied ?w'")
    case True
    then show ?thesis by (simp add: fetch_cases(2) [OF f])
  next
    case False
    then show ?thesis by (simp add: fetch_cases(4) [OF f _ loads_open_bracket])
  qed
  with s show ?thesis by simp
qed

theorem save_not_atomic_witness:
  "fst (fetch (snd (save (todo [milk]) empty_world))) = todo [milk] \<and>
   fst (save (PList [PObject 0]) (snd (save (todo [milk]) empty_world))) = Inl TypeError \<and>
   fst (fetch (snd (save (PList [PObject 0]) (snd (save (todo [milk]) empty_world))))) = PList []"
proof -
  let ?w1 = "snd (save (todo [milk]) empty_world)"
  have w: "file_name \<notin> write_denied empty_world" "\<not> disk_full empty_world"
    "file_name \<notin> read_denied empty_world"
    by (simp_all add: empty_world_def)
  have p: "plain (todo [milk])"
    by (rule plain_todo) (simp add: milk_def valid_task_def valid_str_def asc_def)
  have f: "fits (int_max_str_digits empty_world) (todo [milk])"
    using milk_fits [of "int_max_str_digits empty_world"] by (simp only: fits_todo)
  have "norm_task milk = milk"
    by (simp add: norm_task_id_iff pair_free_def milk_def asc_def)
  then have a: "fst (fetch ?w1) = todo [milk]"
    by (simp add: save_fetch_norm(2) [OF w p f] norm_todo)
  have h: "file_name \<notin> write_denied ?w1" "\<not> disk_full ?w1"
    using w by (simp_all add: save_frame)
  note t = save_not_atomic [OF h, of 0]
  from t have b: "fst (save (PList [PObject 0]) ?w1) = Inl TypeError"
    by (metis fst_conv)
  from t have c: "fst (fetch (snd (save (PList [PObject 0]) ?w1))) = PList []"
    by blast
  from a b c show ?thesis by blast
qed

text \<open>
  C5. \<open>save\<close> overwrites. After \<open>save(A)\<close> and then \<open>save(B)\<close>, for any object
  \<open>A\<close> and any sequence \<open>B\<close> of task records, in a world where the file may be written and
  read and the disk is not full: the file system is the one \<open>save(B)\<close> alone would have left,
  and the file holds what the encoder wrote for \<open>B\<close> and nothing of \<open>A\<close>. When every id of
  \<open>B\<close> is within the interpreter's limit on the digits of an int (4300 by default, none when
  the limit is 0), the second \<open>save\<close> succeeds and \<open>fetch\<close> returns \<open>B\<close> with adjacent
  surrogate pairs joined, which is \<open>B\<close> itself exactly when no string of \<open>B\<close> holds a high
  surrogate followed at once by a low one. When some id of \<open>B\<close> is over the limit, the second
  \<open>save\<close> raises \<open>ValueError\<close>.
\<close>
theorem save_overwrites:
  assumes "file_name \<notin> write_denied w" "\<not> disk_full w" "file_name \<notin> read_denied w"
    and "list_all valid_task ts"
  shows "files (snd (save (todo ts) (snd (save a w)))) = files (snd (save (todo ts) w)) \<and>
         files (snd (save (todo ts) (snd (save a w)))) file_name =
           Some (Text (text_of (int_max_str_digits w) (todo ts))) \<and>
         (list_all (id_fits (int_max_str_digits w)) ts \<longrightarrow>
            fst (save (todo ts) (snd (save a w))) = Inr () \<and>
            fst (fetch (snd (save (todo ts) (snd (save a w))))) = todo (map norm_task ts) \<and>
            (fst (fetch (snd (save (todo ts) (snd (save a w))))) = todo ts \<longleftrightarrow> list_all pair_free ts)) \<and>
         (\<not> list_all (id_fits (int_max_str_digits w)) ts \<longrightarrow>
            fst (save (todo ts) (snd (save a w))) = Inl ValueError)"
proof -
  let ?wa = "snd (save a w)"
  let ?lim = "int_max_str_digits w"
  have h: "file_name \<notin> write_denied ?wa" "\<not> disk_full ?wa" "file_name \<notin> read_denied ?wa"
    using assms(1-3) by (simp_all add: save_frame)
  have l: "int_max_str_digits ?wa = ?lim" by (rule save_frame(6))
  note p = plain_todo [OF assms(4)]
  have fa: "files ?wa = (files w)(file_name \<mapsto> Text (text_of ?lim a))"
    by (simp add: save_ok [OF assms(1,2)])
  have fb: "files (snd (save (todo ts) ?wa)) = (files ?wa)(file_name \<mapsto> Text (text_of ?lim (todo ts)))"
    by (simp add: save_ok [OF h(1,2)] l)
  have f0: "files (snd (save (todo ts) w)) = (files w)(file_name \<mapsto> Text (text_of ?lim (todo ts)))"
    by (simp add: save_ok [OF assms(1,2)])
  have 1: "files (snd (save (todo ts) ?wa)) = files (snd (save (todo ts) w))"
    by (simp add: fb f0 fa)
  have 2: "files (snd (save (todo ts) ?wa)) file_name = Some (Text (text_of ?lim (todo ts)))"
    by (simp add: fb)
  have 3: "fst (save (todo ts) ?wa) = Inr () \<and>
      fst (fetch (snd (save (todo ts) ?wa))) = todo (map norm_task ts) \<and>
      (fst (fetch (snd (save (todo ts) ?wa))) = todo ts \<longleftrightarrow> list_all pair_free ts)"
    if "list_all (id_fits ?lim) ts"
  proof -
    from that have f: "fits (int_max_str_digits ?wa) (todo ts)" by (simp add: fits_todo l)
    note sb = save_fetch_norm [OF h p f]
    have "fst (fetch (snd (save (todo ts) ?wa))) = todo (map norm_task ts)"
      by (simp add: sb(2) norm_todo)
    then show ?thesis by (simp add: sb(1) todo_inj norm_tasks_id_iff)
  qed
  have 4: "fst (save (todo ts) ?wa) = Inl ValueError" if "\<not> list_all (id_fits ?lim) ts"
  proof -
    from that have u: "\<not> fits (int_max_str_digits ?wa) (todo ts)" by (simp add: fits_todo l)
    show ?thesis by (rule save_unfit [OF h(1,2) p u])
  qed
  from 1 2 3 4 show ?thesis by blast
qed

theorem save_overwrites_witness:
  "fst (save (todo [milk]) (snd (save (todo [milk, milk]) empty_world))) = Inr () \<and>
   fst (fetch (snd (save (todo [milk]) (snd (save (todo [milk, milk]) empty_world))))) = todo [milk] \<and>
   fst (save (todo [big]) (snd (save (todo [milk, milk]) empty_world))) = Inl ValueError"
proof -
  have w: "file_name \<notin> write_denied empty_world" "\<not> disk_full empty_world"
    "file_name \<notin> read_denied empty_world"
    by (simp_all add: empty_world_def)
  have v: "list_all valid_task [milk]"
    by (simp add: milk_def valid_task_def valid_str_def asc_def)
  have p: "list_all pair_free [milk]"
    by (simp add: milk_def pair_free_def asc_def)
  have vb: "list_all valid_task [big]" by (simp add: big_valid)
  have ub: "\<not> list_all (id_fits (int_max_str_digits empty_world)) [big]"
    using big_unfit by (simp add: empty_world_def)
  from save_overwrites [OF w v, of "todo [milk, milk]"] save_overwrites [OF w vb, of "todo [milk, milk]"]
    p milk_fits ub
  show ?thesis by blast
qed

theorem save_overwrites_counterexample:
  "fst (fetch (snd (save (todo [\<lparr>t_id = 2, t_content = asc ''call'', t_status = [0xD800, 0xDC00]\<rparr>])
                    (snd (save (todo [milk]) empty_world)))))
     = todo [\<lparr>t_id = 2, t_content = asc ''call'', t_status = [0x10000]\<rparr>] \<and>
   todo [\<lparr>t_id = 2, t_content = asc ''call'', t_status = [0x10000]\<rparr>]
     \<noteq> todo [\<lparr>t_id = 2, t_content = asc ''call'', t_status = [0xD800, 0xDC00]\<rparr>] \<and>
   fst (save (todo [big]) (snd (save (todo [milk]) empty_world))) = Inl ValueError \<and>
   fst (fetch (snd (save (todo [big]) (snd (save (todo [milk]) empty_world))))) = PList [] \<and>
   PList [] \<noteq> todo [big]"
proof -
  let ?t = "\<lparr>t_id = 2, t_content = asc ''call'', t_status = [0xD800, 0xDC00]\<rparr>"
  let ?wa = "snd (save (todo [milk]) empty_world)"
  have p: "plain (todo [?t])"
    by (rule plain_todo) (simp add: valid_task_def valid_str_def asc_def)
  have h: "file_name \<notin> write_denied ?wa" "\<not> disk_full ?wa" "file_name \<notin> read_denied ?wa"
    "int_max_str_digits ?wa = 4300"
    by (simp_all add: save_frame empty_world_def)
  have f: "fits (int_max_str_digits ?wa) (todo [?t])"
    by (simp add: fits_todo id_fits_def small_int_fits)
  have "fetch (snd (save (todo [?t]) ?wa)) = (norm (todo [?t]), snd (save (todo [?t]) ?wa))"
    by (rule save_fetch_norm(2) [OF h(1-3) p f])
  then have a: "fst (fetch (snd (save (todo [?t]) ?wa)))
      = todo [\<lparr>t_id = 2, t_content = asc ''call'', t_status = [0x10000]\<rparr>]"
    by (simp add: norm_todo norm_task_def asc_def)
  have b: "todo [\<lparr>t_id = 2, t_content = asc ''call'', t_status = [0x10000]\<rparr>] \<noteq> todo [?t]"
    by (simp add: todo_inj)
  have c: "PList [] \<noteq> todo [big]" by (simp add: todo_def)
  from a b c save_big [OF h(1,2,4)] show ?thesis by blast
qed

text \<open>
  C7. The store works on one file, \<open>todo.json\<close>: \<open>save\<close> changes no other file, and what
  \<open>fetch\<close> returns depends on no other file: two worlds with the same content and the same
  read permission of that file, under the same interpreter setting for the digits of an
  int, give the same result. After a \<open>save\<close> of task records that returned
  normally, that file holds the text the encoder produced, and the JSON decoder reads this
  text as an array of objects, one per record and in the same order, each with the fields
  \<open>id\<close> (a number), \<open>content\<close> (a string) and \<open>status\<close> (a string).
\<close>
theorem store_file_format:
  "file_name = ''todo.json'' \<and>
   (\<forall>p. p \<noteq> file_name \<longrightarrow> files (snd (save v w)) p = files w p) \<and>
   (files w file_name = files w' file_name \<and> (file_name \<in> read_denied w \<longleftrightarrow> file_name \<in> read_denied w') \<and>
    int_max_str_digits w = int_max_str_digits w'
      \<longrightarrow> fst (fetch w) = fst (fetch w')) \<and>
   (list_all valid_task ts \<and> fst (save (todo ts) w) = Inr () \<longrightarrow>
      files (snd (save (todo ts) w)) file_name =
        Some (Text (text_of (int_max_str_digits w) (todo ts))) \<and>
      json_loads (int_max_str_digits w) (text_of (int_max_str_digits w) (todo ts)) =
        Inr (todo (map norm_task ts)))"
proof (intro conjI allI impI)
  show "file_name = ''todo.json''" by (rule file_name_def)
next
  fix p assume "p \<noteq> file_name"
  then show "files (snd (save v w)) p = files w p" by (rule save_frame(7))
next
  assume "files w file_name = files w' file_name \<and>
    (file_name \<in> read_denied w \<longleftrightarrow> file_name \<in> read_denied w') \<and>
    int_max_str_digits w = int_max_str_digits w'"
  then show "fst (fetch w) = fst (fetch w')"
    by (simp add: fetch_def with_open_def open_file_def json_load_def read_file_def
      close_file_def print_def split: option.splits fdata.splits sum.splits)
next
  assume a: "list_all valid_task ts \<and> fst (save (todo ts) w) = Inr ()"
  then have v: "list_all valid_task ts" and s: "fst (save (todo ts) w) = Inr ()" by simp_all
  note h = save_todo_success [OF v s]
  show "files (snd (save (todo ts) w)) file_name =
      Some (Text (text_of (int_max_str_digits w) (todo ts)))"
    by (simp add: save_ok [OF h(1,2)])
  from h(3) have f: "fits (int_max_str_digits w) (todo ts)" by (simp add: fits_todo)
  show "json_loads (int_max_str_digits w) (text_of (int_max_str_digits w) (todo ts)) =
      Inr (todo (map norm_task ts))"
    using loads_dumps(2) [OF plain_todo [OF v] f] by (simp add: norm_todo)
qed

theorem store_file_format_witness:
  "files (snd (save (todo [milk]) empty_world)) ''other.json'' = None \<and>
   fst (save (todo [milk]) empty_world) = Inr () \<and>
   files (snd (save (todo [milk]) empty_world)) file_name =
     Some (Text (text_of (int_max_str_digits empty_world) (todo [milk]))) \<and>
   json_loads (int_max_str_digits empty_world) (text_of (int_max_str_digits empty_world) (todo [milk])) =
     Inr (todo [milk])"
proof -
  have w: "file_name \<notin> write_denied empty_world" "\<not> disk_full empty_world"
    "file_name \<notin> read_denied empty_world"
    by (simp_all add: empty_world_def)
  have v: "list_all valid_task [milk]"
    by (simp add: milk_def valid_task_def valid_str_def asc_def)
  have f: "fits (int_max_str_digits empty_world) (todo [milk])"
    using milk_fits [of "int_max_str_digits empty_world"] by (simp only: fits_todo)
  have s: "fst (save (todo [milk]) empty_world) = Inr ()"
    by (simp add: save_fetch_norm(1) [OF w plain_todo [OF v] f])
  have n: "map norm_task [milk] = [milk]"
    by (simp add: norm_task_id_iff pair_free_def milk_def asc_def)
  have o: "''other.json'' \<noteq> file_name" "files empty_world ''other.json'' = None"
    by (simp_all add: file_name_def empty_world_def)
  from store_file_format [of "todo [milk]" empty_world empty_world "[milk]"] v s n o
  show ?thesis by simp
qed

end
